theory Spec2Isabelle
  imports Main
begin

section \<open>JavaScript strings and numbers used by the session controller\<close>

text \<open>
  Strings are modelled as \<open>string\<close>, a list of 8-bit characters. The text of a
  notification is the result of \<open>atob\<close>, whose characters are exactly the code units
  0..255, so nothing is lost there; navigation parameters and advertised names are
  modelled on the same range (Latin-1).

  The numbers of the controller are the Number values that \<open>parseInt\<close> gives for a
  run of decimal digits, and small integers. They are modelled as \<open>int\<close>: a finite
  Number of this kind is the integer it denotes, \<open>Infinity\<close> is the integer \<open>2^1024\<close>
  (\<open>numberInfinity\<close>), the least integer above every finite double, and \<open>-Infinity\<close>
  its negation; \<open>NaN\<close> is \<open>None\<close>. \<open>toNumber\<close> is the conversion of a mathematical
  integer to a Number. The controller applies to these values only comparisons,
  \<open>Math.min\<close> against a bound of at most 50, and the subtraction \<open>parsed - last\<close> of
  which it reads the sign and the minimum with such a bound; on the encoding each of
  them gives what the double operation gives (a difference of two integer-valued
  doubles is exact whenever it is small, has the sign of the exact difference, and
  \<open>Infinity - Infinity\<close>, which is \<open>NaN\<close>, fails the same tests as \<open>0\<close>).
\<close>

text \<open>ECMAScript white space and line terminators (what \<open>trim\<close>, \<open>parseInt\<close> and the
  regular expression class \<open>\s\<close> skip), restricted to code units below 256.\<close>

definition isWhiteSpace :: "char \<Rightarrow> bool" where
  "isWhiteSpace c = (c \<in> set [CHR 0x09, CHR 0x0A, CHR 0x0B, CHR 0x0C, CHR 0x0D, CHR 0x20, CHR 0xA0])"

text \<open>The regular expression class \<open>\d\<close>: the ten ASCII digits.\<close>

definition isDigit :: "char \<Rightarrow> bool" where
  "isDigit c = (c \<in> set ''0123456789'')"

definition digitVal :: "char \<Rightarrow> int" where
  "digitVal c = of_char c - 48"

text \<open>The mathematical value of a string of decimal digits, most significant first.\<close>

definition decimalValue :: "string \<Rightarrow> int" where
  "decimalValue ds = foldl (\<lambda>a c. 10 * a + digitVal c) 0 ds"

text \<open>\<open>String.prototype.trim\<close>.\<close>

definition trim :: "string \<Rightarrow> string" where
  "trim s = rev (dropWhile isWhiteSpace (rev (dropWhile isWhiteSpace s)))"

text \<open>\<open>String.prototype.toLowerCase\<close> on code units below 256: the ASCII capitals and
  the Latin-1 capitals (all of 0xC0..0xDE but the multiplication sign 0xD7) move up by
  0x20, every other character stays.\<close>

definition lowerChar :: "char \<Rightarrow> char" where
  "lowerChar c =
     (let n = (of_char c :: nat)
      in if (65 \<le> n \<and> n \<le> 90) \<or> (192 \<le> n \<and> n \<le> 222 \<and> n \<noteq> 215)
         then char_of (n + 32) else c)"

definition toLowerCase :: "string \<Rightarrow> string" where
  "toLowerCase s = map lowerChar s"

text \<open>
  The conversion of a non-negative mathematical integer to a Number (IEEE 754 binary64,
  round to nearest, ties to even). Below \<open>2^53 = 9007199254740992\<close> every integer is a
  double. Above, \<open>binaryExponent n\<close> is the number of low bits that do not fit the
  53-bit significand; they are rounded away, and a result of \<open>2^1024\<close> or more is
  \<open>Infinity\<close>.
\<close>

function binaryExponent :: "int \<Rightarrow> nat" where
  "binaryExponent n = (if n < 9007199254740992 then 0 else Suc (binaryExponent (n div 2)))"
  by pat_completeness auto
termination
  by (relation "measure nat") auto

declare binaryExponent.simps [simp del]

definition numberInfinity :: int where
  "numberInfinity =
     179769313486231590772930519078902473361797697894230657273430081157732675805500963132708477322407536021120113879871393357658789768814416622492847430639474124377767893424865485276302219601246094119453082952085005768838150682342462881473913110540827237163350510684586298239947245938479716304835356329624224137216"

definition toNumber :: "int \<Rightarrow> int" where
  "toNumber n =
     (if n < 9007199254740992 then n
      else (let e = binaryExponent n;
                q = n div 2 ^ e;
                r = n mod 2 ^ e;
                q' = (if r > 2 ^ (e - 1) \<or> (r = 2 ^ (e - 1) \<and> odd q) then q + 1 else q)
            in if q' * 2 ^ e \<ge> numberInfinity then numberInfinity else q' * 2 ^ e))"

text \<open>\<open>Number.isFinite\<close> on a value that is not \<open>NaN\<close>.\<close>

definition isFiniteNumber :: "int \<Rightarrow> bool" where
  "isFiniteNumber v = (- numberInfinity < v \<and> v < numberInfinity)"

text \<open>
  \<open>parseInt(s, 10)\<close>: leading white space is skipped, one sign is read, then the
  longest prefix of decimal digits; with no digit the result is \<open>NaN\<close>, here \<open>None\<close>.
  With the radix given as 10 no \<open>0x\<close> prefix is stripped. The result is the Number
  value of the signed mathematical integer, so a run of sixteen digits or more may be
  rounded and a run of 309 digits or more may give \<open>Infinity\<close>. (ECMA-262 lets an
  engine replace the digits after the twentieth significant one by zeros before the
  conversion; \<open>toNumber\<close> converts the digits as written.)
\<close>

definition parseInt :: "string \<Rightarrow> int option" where
  "parseInt s =
     (let t = dropWhile isWhiteSpace s;
          neg = (case t of [] \<Rightarrow> False | c # _ \<Rightarrow> c = CHR ''-'');
          u = (case t of [] \<Rightarrow> [] | c # cs \<Rightarrow> if c = CHR ''+'' \<or> c = CHR ''-'' then cs else t);
          z = takeWhile isDigit u
      in if z = [] then None
         else Some (if neg then - toNumber (decimalValue z) else toNumber (decimalValue z)))"

section \<open>Navigation parameters of the session screen\<close>

text \<open>
  \<open>Session\<close>, the \<open>sets\<close> and \<open>reps\<close> memos. A parameter is a string or absent
  (\<open>None\<close>); the absent and the empty string are falsy and take the default before
  \<open>parseInt\<close> is called. \<open>isNaN(parsed) || parsed < 1\<close> selects the default again.
\<close>

definition sessionSets :: "string option \<Rightarrow> int" where
  "sessionSets p =
     (let parsed = (case p of None \<Rightarrow> Some 3
                    | Some s \<Rightarrow> if s = [] then Some 3 else parseInt s)
      in case parsed of None \<Rightarrow> 3
         | Some n \<Rightarrow> if n < 1 then 3 else min 20 n)"

definition sessionReps :: "string option \<Rightarrow> int" where
  "sessionReps p =
     (let parsed = (case p of None \<Rightarrow> Some 10
                    | Some s \<Rightarrow> if s = [] then Some 10 else parseInt s)
      in case parsed of None \<Rightarrow> 10
         | Some n \<Rightarrow> if n < 1 then 10 else min 50 n)"

text \<open>The clamp of the specification's wording: the nearest value of the interval.\<close>

definition specClamp :: "int \<Rightarrow> int \<Rightarrow> int \<Rightarrow> int" where
  "specClamp lo hi x = max lo (min hi x)"

section \<open>Discovery: matching a scanned peripheral\<close>

text \<open>
  \<open>useBleConnectToSensor\<close>, the scan callback of \<open>connect\<close>. A scanned device has
  an identifier and two optional names. \<open>targetName\<close> and \<open>targetMac\<close> are computed
  from the hook's arguments; an absent, empty or blank address is no address.
\<close>

record device =
  dev_id :: string
  dev_name :: "string option"
  dev_localName :: "string option"

definition targetName :: "string \<Rightarrow> string" where
  "targetName sensorName = (if trim sensorName = [] then ''IMU-STACK'' else trim sensorName)"

definition targetMac :: "string option \<Rightarrow> string option" where
  "targetMac sensorMac =
     (case sensorMac of None \<Rightarrow> None
      | Some m \<Rightarrow> if trim m = [] then None else Some (trim m))"

text \<open>\<open>d?.name || d?.localName || ""\<close>: the local name is read only when the primary
  name is absent or empty.\<close>

definition deviceName :: "device \<Rightarrow> string" where
  "deviceName d =
     (case dev_name d of
        Some n \<Rightarrow> if n \<noteq> [] then n
                  else (case dev_localName d of Some l \<Rightarrow> l | None \<Rightarrow> [])
      | None \<Rightarrow> (case dev_localName d of Some l \<Rightarrow> l | None \<Rightarrow> []))"

definition matchesMac :: "string option \<Rightarrow> device \<Rightarrow> bool" where
  "matchesMac tm d =
     (case tm of None \<Rightarrow> False
      | Some m \<Rightarrow> dev_id d = m \<or> toLowerCase (dev_id d) = toLowerCase m)"

definition matchesName :: "string \<Rightarrow> string option \<Rightarrow> device \<Rightarrow> bool" where
  "matchesName tn tm d =
     (case tm of Some m \<Rightarrow> False
      | None \<Rightarrow> deviceName d = tn \<or> toLowerCase (deviceName d) = toLowerCase tn)"

text \<open>\<open>matches = d && (matchesMac || matchesName)\<close>; the scanned device may be null.\<close>

definition matches :: "string \<Rightarrow> string option \<Rightarrow> device option \<Rightarrow> bool" where
  "matches sensorName sensorMac dopt =
     (case dopt of None \<Rightarrow> False
      | Some d \<Rightarrow> matchesMac (targetMac sensorMac) d
                  \<or> matchesName (targetName sensorName) (targetMac sensorMac) d)"

section \<open>Characteristic stream decoder: the text of a sample\<close>

text \<open>
  The pattern letter \<open>p\<close> (a capital of \<open>REPS\<close>) against an input character under the
  flag \<open>i\<close>: the capital or its small letter.
\<close>

definition eqIgnoreCase :: "char \<Rightarrow> char \<Rightarrow> bool" where
  "eqIgnoreCase p c = (c = p \<or> c = lowerChar p)"

text \<open>The class \<open>[:\s]\<close>.\<close>

definition isSeparator :: "char \<Rightarrow> bool" where
  "isSeparator c = (c = CHR '':'' \<or> isWhiteSpace c)"

text \<open>
  \<open>/REPS[:\s]*(\d+)/i\<close> tried at the start of a string; the result is capture group 1.
  The star is greedy, and a separator is never a digit, so giving separators back cannot
  turn a failure into a match.
\<close>

fun repsLabelAt :: "string \<Rightarrow> string option" where
  "repsLabelAt (r # e # p # s # rest) =
     (if eqIgnoreCase CHR ''R'' r \<and> eqIgnoreCase CHR ''E'' e
         \<and> eqIgnoreCase CHR ''P'' p \<and> eqIgnoreCase CHR ''S'' s
      then (let ds = takeWhile isDigit (dropWhile isSeparator rest)
            in if ds = [] then None else Some ds)
      else None)"
| "repsLabelAt _ = None"

text \<open>\<open>text.match(/REPS[:\s]*(\d+)/i)\<close>: the leftmost position where the pattern
  matches; \<open>None\<close> is the \<open>null\<close> of no match.\<close>

fun matchReps :: "string \<Rightarrow> string option" where
  "matchReps [] = None"
| "matchReps (c # cs) =
     (case repsLabelAt (c # cs) of Some ds \<Rightarrow> Some ds | None \<Rightarrow> matchReps cs)"

text \<open>\<open>text.match(/(\d+)/)\<close>: the first maximal run of digits.\<close>

definition matchNumber :: "string \<Rightarrow> string option" where
  "matchNumber t =
     (let ds = takeWhile isDigit (dropWhile (\<lambda>c. \<not> isDigit c) t)
      in if ds = [] then None else Some ds)"

text \<open>
  The notification callback: the labelled pattern first, the bare number only when the
  labelled pattern does not match; \<open>None\<close> stands for both \<open>null\<close> and \<open>NaN\<close>, which
  the guard \<open>newReps !== null && !isNaN(newReps)\<close> treats alike. \<open>Infinity\<close> passes this
  guard.
\<close>

definition parseRepsNotification :: "string \<Rightarrow> int option" where
  "parseRepsNotification t =
     (case matchReps t of
        Some ds \<Rightarrow> parseInt ds
      | None \<Rightarrow> (case matchNumber t of Some ds \<Rightarrow> parseInt ds | None \<Rightarrow> None))"

text \<open>
  The fallback poll: both patterns are matched, then
  \<open>matchReps?.[1] ? parseInt(matchReps[1], 10) : matchNumber?.[1] ? parseInt(matchNumber[1], 10) : NaN\<close>;
  a capture is truthy when it is not the empty string. The poll goes on only when
  \<open>Number.isFinite(parsed)\<close>: \<open>None\<close> stands for \<open>NaN\<close> and for the two infinities,
  at which the callback returns.
\<close>

definition parseRepsPoll :: "string \<Rightarrow> int option" where
  "parseRepsPoll t =
     (let mr = matchReps t; mn = matchNumber t;
          parsed =
            (case mr of
               Some ds \<Rightarrow>
                 (if ds \<noteq> [] then parseInt ds
                  else (case mn of Some es \<Rightarrow> if es \<noteq> [] then parseInt es else None | None \<Rightarrow> None))
             | None \<Rightarrow> (case mn of Some es \<Rightarrow> if es \<noteq> [] then parseInt es else None | None \<Rightarrow> None))
      in case parsed of
           None \<Rightarrow> None
         | Some v \<Rightarrow> if isFiniteNumber v then Some v else None)"

text \<open>
  The wording of the specification for the labelled pattern, independent of the matcher:
  a string begins with a labelled count \<open>ds\<close> when it is the label (\<open>REPS\<close> in any
  letter case), then separators, then the digits \<open>ds\<close>, then a rest that does not go on
  with a digit.
\<close>

definition labelledCount :: "string \<Rightarrow> string \<Rightarrow> bool" where
  "labelledCount t ds =
     (\<exists>lab seps rest. t = lab @ seps @ ds @ rest
        \<and> list_all2 eqIgnoreCase ''REPS'' lab
        \<and> list_all isSeparator seps
        \<and> ds \<noteq> [] \<and> list_all isDigit ds
        \<and> (case rest of [] \<Rightarrow> True | c # _ \<Rightarrow> \<not> isDigit c))"

text \<open>The first decimal integer substring of a text: a maximal run of digits with no
  digit before it.\<close>

definition firstNumber :: "string \<Rightarrow> string \<Rightarrow> bool" where
  "firstNumber t ds =
     (\<exists>pre rest. t = pre @ ds @ rest
        \<and> list_all (\<lambda>c. \<not> isDigit c) pre
        \<and> ds \<noteq> [] \<and> list_all isDigit ds
        \<and> (case rest of [] \<Rightarrow> True | c # _ \<Rightarrow> \<not> isDigit c))"

section \<open>Rep/set reconciliation: the state of the session screen\<close>

text \<open>
  The React state and the refs of \<open>Session\<close> that the rep counting reads or writes.
  \<open>setRepsCompletedRef\<close> and \<open>setRestTimesRef\<close> number the array objects held in the
  two array states: an updater that returns a copy installs a new object, which a
  dependency list tells from the old one even when the entries are equal.
  The wall-clock stamps (\<open>bleLastAtMs\<close>) and the live-characteristic diagnostics are
  left out; nothing reads them back.
\<close>

record session =
  currentSetIndex :: nat
  setRepsCompleted :: "int list"
  setRepsCompletedRef :: nat
  setRestTimes :: "int list"
  setRestTimesRef :: nat
  showRestDrawer :: bool
  restTimer :: int
  sensorReps :: int
  bleLastText :: "string option"
  bleNotifyCount :: nat
  bleLastError :: "string option"
  lastSensorRepRef :: int
  currentRepsRef :: int
  showRestDrawerRef :: bool

text \<open>\<open>Array(sets).fill(0)\<close> twice, set 0 current, the refs at their initial values.\<close>

definition initialSession :: "int \<Rightarrow> session" where
  "initialSession sets =
     \<lparr>currentSetIndex = 0,
      setRepsCompleted = replicate (nat sets) 0, setRepsCompletedRef = 0,
      setRestTimes = replicate (nat sets) 0, setRestTimesRef = 0,
      showRestDrawer = False, restTimer = 0, sensorReps = 0,
      bleLastText = None, bleNotifyCount = 0, bleLastError = None,
      lastSensorRepRef = 0, currentRepsRef = 0, showRestDrawerRef = False\<rparr>"

text \<open>\<open>setRepsCompleted[currentSetIndex] || 0\<close>: an index past the end reads
  \<open>undefined\<close>, which \<open>||\<close> turns into 0.\<close>

definition currentReps :: "session \<Rightarrow> int" where
  "currentReps s =
     (if currentSetIndex s < length (setRepsCompleted s)
      then setRepsCompleted s ! currentSetIndex s else 0)"

text \<open>\<open>setRepsCompleted.every((r) => r >= reps)\<close>.\<close>

definition isAllSetsComplete :: "int \<Rightarrow> session \<Rightarrow> bool" where
  "isAllSetsComplete reps s = list_all (\<lambda>r. r \<ge> reps) (setRepsCompleted s)"

text \<open>
  A render computes \<open>currentReps\<close> and \<open>isAllSetsComplete\<close> from the state and makes
  a new \<open>incrementRep\<close> that closes over them and over \<open>currentSetIndex\<close>. A
  \<open>closure\<close> holds what one such \<open>incrementRep\<close> captured. The button of the screen
  uses the one of the latest render; the monitor callback and the poll timer keep the one
  of the render in which their effect ran.
\<close>

record closure =
  cl_currentSetIndex :: nat
  cl_currentReps :: int
  cl_isAllSetsComplete :: bool

definition renderClosure :: "int \<Rightarrow> session \<Rightarrow> closure" where
  "renderClosure reps s =
     \<lparr>cl_currentSetIndex = currentSetIndex s,
      cl_currentReps = currentReps s,
      cl_isAllSetsComplete = isAllSetsComplete reps s\<rparr>"

text \<open>The render body also copies two values into refs for the callbacks
  (\<open>currentRepsRef.current = currentReps; showRestDrawerRef.current = showRestDrawer\<close>).\<close>

definition render :: "session \<Rightarrow> session" where
  "render s = s\<lparr>currentRepsRef := currentReps s, showRestDrawerRef := showRestDrawer s\<rparr>"

subsection \<open>incrementRep\<close>

text \<open>
  The updater passed to \<open>setSetRepsCompleted\<close>, for the captured index \<open>i\<close>:
  \<open>next[i] < reps\<close> is false when \<open>next[i]\<close> is \<open>undefined\<close>, so an index past the end
  changes nothing.
\<close>

definition bumpRep :: "int \<Rightarrow> nat \<Rightarrow> int list \<Rightarrow> int list" where
  "bumpRep reps i prev =
     (if i < length prev \<and> prev ! i < reps then prev[i := prev ! i + 1] else prev)"

text \<open>
  \<open>incrementRep\<close> with the values it captured. State updates are queued by React and
  applied in order before the next render; since the function reads the state only
  through what it captured, applying each update at once gives the same state.
\<close>

definition incrementRep :: "int \<Rightarrow> int \<Rightarrow> closure \<Rightarrow> session \<Rightarrow> session" where
  "incrementRep sets reps cl s =
     (if cl_isAllSetsComplete cl then s
      else (let s1 = s\<lparr>setRepsCompleted := bumpRep reps (cl_currentSetIndex cl) (setRepsCompleted s),
                        setRepsCompletedRef := Suc (setRepsCompletedRef s)\<rparr>
            in if cl_currentReps cl + 1 \<ge> reps \<and> int (cl_currentSetIndex cl) < sets - 1
               then s1\<lparr>showRestDrawer := True, lastSensorRepRef := 0, sensorReps := 0\<rparr>
               else s1))"

text \<open>\<open>for (let i = 0; i < repsToAdd; i++) incrementRep();\<close> with the number of
  iterations still to run.\<close>

fun incrementRepLoop :: "int \<Rightarrow> int \<Rightarrow> closure \<Rightarrow> nat \<Rightarrow> session \<Rightarrow> session" where
  "incrementRepLoop sets reps cl 0 s = s"
| "incrementRepLoop sets reps cl (Suc n) s =
     incrementRepLoop sets reps cl n (incrementRep sets reps cl s)"

subsection \<open>The rep merge rule\<close>

text \<open>
  The block that follows a successful parse, the same in the notification callback and in
  the fallback poll (and in their copies of the retry effect) up to the names of the
  locals: \<open>newReps\<close> is the parsed counter, \<open>cl\<close> the \<open>incrementRep\<close> the callback
  holds.
\<close>

definition mergeSample :: "int \<Rightarrow> int \<Rightarrow> closure \<Rightarrow> int \<Rightarrow> session \<Rightarrow> session" where
  "mergeSample sets reps cl newReps s0 =
     (let s = s0\<lparr>sensorReps := newReps\<rparr>;
          currentRepsNow = currentRepsRef s;
          inRestPeriod = showRestDrawerRef s;
          sensorRepDelta = newReps - lastSensorRepRef s
      in if sensorRepDelta > 0 \<and> currentRepsNow < reps \<and> \<not> inRestPeriod
         then (let repsToAdd = min sensorRepDelta (reps - currentRepsNow)
               in (incrementRepLoop sets reps cl (nat repsToAdd) s)\<lparr>lastSensorRepRef := newReps\<rparr>)
         else if newReps > 0 \<and> lastSensorRepRef s = 0 \<and> currentRepsNow < reps \<and> \<not> inRestPeriod
         then (incrementRep sets reps cl s)\<lparr>lastSensorRepRef := newReps\<rparr>
         else s)"

text \<open>The merge rule with the first-rep branch removed, for comparison.\<close>

definition mergeSampleDeltaOnly :: "int \<Rightarrow> int \<Rightarrow> closure \<Rightarrow> int \<Rightarrow> session \<Rightarrow> session" where
  "mergeSampleDeltaOnly sets reps cl newReps s0 =
     (let s = s0\<lparr>sensorReps := newReps\<rparr>;
          currentRepsNow = currentRepsRef s;
          inRestPeriod = showRestDrawerRef s;
          sensorRepDelta = newReps - lastSensorRepRef s
      in if sensorRepDelta > 0 \<and> currentRepsNow < reps \<and> \<not> inRestPeriod
         then (let repsToAdd = min sensorRepDelta (reps - currentRepsNow)
               in (incrementRepLoop sets reps cl (nat repsToAdd) s)\<lparr>lastSensorRepRef := newReps\<rparr>)
         else s)"

subsection \<open>The two sources of samples\<close>

text \<open>
  The monitor callback from the decoded text on (the error argument, an empty value and a
  failing \<open>atob\<close> are before that): it records the text and counts the notification,
  then parses and merges.
\<close>

definition onNotification :: "int \<Rightarrow> int \<Rightarrow> closure \<Rightarrow> string \<Rightarrow> session \<Rightarrow> session" where
  "onNotification sets reps cl t s =
     (let s1 = s\<lparr>bleLastText := Some t, bleNotifyCount := bleNotifyCount s + 1\<rparr>
      in case parseRepsNotification t of
           None \<Rightarrow> s1
         | Some newReps \<Rightarrow> mergeSample sets reps cl newReps s1)"

text \<open>The 750 ms poll from the decoded text on: it records the text, parses, returns
  when the value is not finite, and merges.\<close>

definition onPollRead :: "int \<Rightarrow> int \<Rightarrow> closure \<Rightarrow> string \<Rightarrow> session \<Rightarrow> session" where
  "onPollRead sets reps cl t s =
     (let s1 = s\<lparr>bleLastText := Some t\<rparr>
      in case parseRepsPoll t of
           None \<Rightarrow> s1
         | Some parsed \<Rightarrow> mergeSample sets reps cl parsed s1)"

datatype sample = Notification string | PollRead string

text \<open>One sample handled by the callback that holds \<open>cl\<close>.\<close>

fun handleSample :: "int \<Rightarrow> int \<Rightarrow> closure \<Rightarrow> session \<Rightarrow> sample \<Rightarrow> session" where
  "handleSample sets reps cl s (Notification t) = onNotification sets reps cl t s"
| "handleSample sets reps cl s (PollRead t) = onPollRead sets reps cl t s"

text \<open>The sample handled, then the render that the state updates cause (which refreshes
  the two refs): the callbacks run one at a time on the event loop, each followed by the
  render it scheduled.\<close>

definition deliver :: "int \<Rightarrow> int \<Rightarrow> closure \<Rightarrow> session \<Rightarrow> sample \<Rightarrow> session" where
  "deliver sets reps cl s smp = render (handleSample sets reps cl s smp)"

text \<open>A sequence of samples handled by one subscription.\<close>

definition deliverAll :: "int \<Rightarrow> int \<Rightarrow> closure \<Rightarrow> session \<Rightarrow> sample list \<Rightarrow> session" where
  "deliverAll sets reps cl s smps = foldl (deliver sets reps cl) s smps"

text \<open>A tap on the button \<open>+1 Rep\<close>: the \<open>incrementRep\<close> of the latest render, then the
  next render.\<close>

definition tap :: "int \<Rightarrow> int \<Rightarrow> session \<Rightarrow> session" where
  "tap sets reps s = render (incrementRep sets reps (renderClosure reps s) s)"

subsection \<open>continueToNextSet\<close>

text \<open>
  The assignment \<open>next[i] = v\<close> of the rest-time updater. Past the end JavaScript
  lengthens the array, leaving holes; a hole is written as 0 here, which is what every
  read of the screen (\<open>setRestTimes[index] || 0\<close>) makes of it.
\<close>

definition assignAt :: "nat \<Rightarrow> int \<Rightarrow> int list \<Rightarrow> int list" where
  "assignAt i v prev =
     (if i < length prev then prev[i := v]
      else prev @ replicate (i - length prev) 0 @ [v])"

definition continueToNextSet :: "session \<Rightarrow> session" where
  "continueToNextSet s =
     s\<lparr>setRestTimes := assignAt (currentSetIndex s) (restTimer s) (setRestTimes s),
       setRestTimesRef := Suc (setRestTimesRef s),
       showRestDrawer := False,
       currentSetIndex := currentSetIndex s + 1,
       lastSensorRepRef := 0,
       sensorReps := 0,
       currentRepsRef := 0\<rparr>"

subsection \<open>A set being counted\<close>

text \<open>
  The sessions in which set 0 is current and being counted: it holds \<open>k\<close> reps, the render
  has copied them into the ref, the sensor baseline is \<open>l\<close>, and the rest drawer is
  closed (in the state and in the ref).
\<close>

definition counting :: "int \<Rightarrow> int \<Rightarrow> session \<Rightarrow> bool" where
  "counting k l s =
     (currentSetIndex s = 0 \<and> 0 < length (setRepsCompleted s)
      \<and> setRepsCompleted s ! 0 = k
      \<and> currentRepsRef s = k \<and> lastSensorRepRef s = l
      \<and> \<not> showRestDrawer s \<and> \<not> showRestDrawerRef s)"

section \<open>Connection handoff store\<close>

text \<open>
  \<open>BleConnectionProvider\<close>: one state object with five nullable fields, shared by the
  screens of the workout flow. The device and manager handles are opaque, hence type
  parameters.
\<close>

record ('d, 'm) bleConnectionState =
  bc_device :: "'d option"
  bc_manager :: "'m option"
  bc_machine :: "string option"
  bc_sensorName :: "string option"
  bc_sensorMac :: "string option"

definition initialState :: "('d, 'm) bleConnectionState" where
  "initialState =
     \<lparr>bc_device = None, bc_manager = None, bc_machine = None,
      bc_sensorName = None, bc_sensorMac = None\<rparr>"

text \<open>\<open>setPreConnected\<close> replaces the whole state, whatever it held.\<close>

definition setPreConnected ::
  "'d \<Rightarrow> 'm \<Rightarrow> string \<Rightarrow> string \<Rightarrow> string \<Rightarrow> ('d, 'm) bleConnectionState
     \<Rightarrow> ('d, 'm) bleConnectionState" where
  "setPreConnected d m mach sname smac st =
     \<lparr>bc_device = Some d, bc_manager = Some m, bc_machine = Some mach,
      bc_sensorName = Some sname, bc_sensorMac = Some smac\<rparr>"

definition clearPreConnected :: "('d, 'm) bleConnectionState \<Rightarrow> ('d, 'm) bleConnectionState" where
  "clearPreConnected st = initialState"

text \<open>
  The consuming side, in the BLE effect of \<open>Session\<close>:
  \<open>if (preConnectedDevice && preConnectedManager) { clearPreConnected(); ... }\<close>. The
  effect takes the two handles and clears the store; with a handle missing it takes
  nothing and leaves the store as it is. The result is what was taken and the store
  after.
\<close>

definition consumePreConnected ::
  "('d, 'm) bleConnectionState \<Rightarrow> ('d \<times> 'm) option \<times> ('d, 'm) bleConnectionState" where
  "consumePreConnected st =
     (case bc_device st of
        None \<Rightarrow> (None, st)
      | Some d \<Rightarrow>
          (case bc_manager st of
             None \<Rightarrow> (None, st)
           | Some m \<Rightarrow> (Some (d, m), clearPreConnected st)))"

section \<open>The session screen as a transition system\<close>

text \<open>
  What the screen is given: the two memo values, the machine name, and the user id that
  \<open>supabase.auth.getUser()\<close> resolves to (\<open>None\<close> without a client or a signed-in user).
\<close>

record config =
  cfg_sets :: int
  cfg_reps :: int
  cfg_machineName :: string
  cfg_authUser :: "string option"

text \<open>
  The \<open>Workout\<close> written by \<open>saveWorkout\<close>, without the three fields taken from the
  clock or the random generator (\<open>id\<close>, \<open>completedAt\<close>, \<open>duration\<close>).
\<close>

record workout =
  w_userId :: string
  w_machineName :: string
  w_sets :: int
  w_reps :: int
  w_setRepsCompleted :: "int list"
  w_setRestTimes :: "int list"

text \<open>\<open>saveWorkout\<close>: read the stored list, push the new record, write the list back.\<close>

definition saveWorkout :: "workout \<Rightarrow> workout list \<Rightarrow> workout list" where
  "saveWorkout w workouts = workouts @ [w]"

text \<open>
  The screen between two events: the session, the \<open>userId\<close> state, the subscription
  (the monitor callback and the poll timer, with the \<open>incrementRep\<close> they captured;
  \<open>None\<close> when no callback is live), the dependency values with which the save effect
  last ran, and the stored workouts.
\<close>

record screen =
  sess :: session
  userId :: "string option"
  monitor :: "closure option"
  saveEffectDeps :: "(bool \<times> string option \<times> nat \<times> nat) option"
  workouts :: "workout list"

text \<open>
  The events of the screen. \<open>Tap\<close>: the button \<open>+1 Rep\<close>. \<open>Sensor\<close>: a notification
  or a poll read arrives. \<open>Continue\<close>: the button of the rest drawer. \<open>Tick\<close>: the
  rest timer's interval sets the elapsed seconds. \<open>AuthResolved\<close>: \<open>getUser\<close>
  resolves. \<open>Attach\<close>: a BLE effect (from the handed-over device, or after a retry)
  has set up the monitor and the poll with the \<open>incrementRep\<close> of the current render.
  \<open>Rerender\<close>: any other state change (sensor status, diagnostics) renders the screen
  again.
\<close>

datatype event = Tap | Sensor sample | Continue | Tick int | AuthResolved | Attach | Rerender

text \<open>
  The handler of one event. The \<open>Continue\<close> button exists only in the rest drawer, and
  the interval only runs while the drawer is shown. The main BLE effect returns before
  subscribing when \<open>showRestDrawer || isAllSetsComplete\<close>.
\<close>

fun handleEvent :: "config \<Rightarrow> screen \<Rightarrow> event \<Rightarrow> screen" where
  "handleEvent cfg st Tap =
     st\<lparr>sess := incrementRep (cfg_sets cfg) (cfg_reps cfg)
                   (renderClosure (cfg_reps cfg) (sess st)) (sess st)\<rparr>"
| "handleEvent cfg st (Sensor smp) =
     (case monitor st of
        None \<Rightarrow> st
      | Some cl \<Rightarrow> st\<lparr>sess := handleSample (cfg_sets cfg) (cfg_reps cfg) cl (sess st) smp\<rparr>)"
| "handleEvent cfg st Continue =
     (if showRestDrawer (sess st) then st\<lparr>sess := continueToNextSet (sess st)\<rparr> else st)"
| "handleEvent cfg st (Tick elapsed) =
     (if showRestDrawer (sess st) then st\<lparr>sess := (sess st)\<lparr>restTimer := elapsed\<rparr>\<rparr> else st)"
| "handleEvent cfg st AuthResolved =
     (case cfg_authUser cfg of None \<Rightarrow> st | Some u \<Rightarrow> st\<lparr>userId := Some u\<rparr>)"
| "handleEvent cfg st Attach =
     (if showRestDrawer (sess st) \<or> isAllSetsComplete (cfg_reps cfg) (sess st) then st
      else st\<lparr>monitor := Some (renderClosure (cfg_reps cfg) (sess st))\<rparr>)"
| "handleEvent cfg st Rerender = st"

text \<open>
  The dependency list of the save effect,
  \<open>[isAllSetsComplete, machineName, sets, reps, userId, setRepsCompleted, setRestTimes]\<close>,
  without the three values that never change; the two arrays are compared as objects.
\<close>

definition saveDeps :: "config \<Rightarrow> screen \<Rightarrow> bool \<times> string option \<times> nat \<times> nat" where
  "saveDeps cfg st =
     (isAllSetsComplete (cfg_reps cfg) (sess st), userId st,
      setRepsCompletedRef (sess st), setRestTimesRef (sess st))"

text \<open>The body of the save effect: \<open>if (isAllSetsComplete && userId) saveWorkout(...)\<close>.\<close>

definition saveEffect :: "config \<Rightarrow> screen \<Rightarrow> screen" where
  "saveEffect cfg st =
     (if isAllSetsComplete (cfg_reps cfg) (sess st)
      then (case userId st of
              None \<Rightarrow> st
            | Some u \<Rightarrow>
                st\<lparr>workouts := saveWorkout
                      \<lparr>w_userId = u, w_machineName = cfg_machineName cfg,
                       w_sets = cfg_sets cfg, w_reps = cfg_reps cfg,
                       w_setRepsCompleted = setRepsCompleted (sess st),
                       w_setRestTimes = setRestTimes (sess st)\<rparr> (workouts st)\<rparr>)
      else st)"

text \<open>
  The render that follows an event, and its effects. The render refreshes the refs. The
  BLE effect depends on \<open>showRestDrawer\<close> and \<open>isAllSetsComplete\<close>: when the drawer
  is shown or all sets are complete it has cancelled the subscription (its cleanup sets
  \<open>setupCancelled\<close>, its body clears the poll timer and disconnects the device). The
  save effect runs when one of its dependencies differs from the last run.

  A cleanup of a BLE effect on another dependency (the handed-over device and manager,
  \<open>reps\<close>, the sensor status and the retry handles) also ends a subscription; here that
  is a subscription that delivers no further \<open>Sensor\<close> event, and the next one is an
  \<open>Attach\<close>. The cleanup is the one of the later variant of the screen (the component
  the navigation parameters above belong to); the cleanup of the earlier variant also
  resets \<open>lastSensorRepRef\<close>. The rest-timer effect's \<open>setRestTimer(0)\<close> at the opening
  of the drawer is the event \<open>Tick 0\<close>.
\<close>

definition commit :: "config \<Rightarrow> screen \<Rightarrow> screen" where
  "commit cfg st0 =
     (let st1 = st0\<lparr>sess := render (sess st0)\<rparr>;
          st2 = (if showRestDrawer (sess st1) \<or> isAllSetsComplete (cfg_reps cfg) (sess st1)
                 then st1\<lparr>monitor := None\<rparr> else st1)
      in if saveEffectDeps st2 = Some (saveDeps cfg st2) then st2
         else (saveEffect cfg st2)\<lparr>saveEffectDeps := Some (saveDeps cfg st2)\<rparr>)"

text \<open>The first render of the screen, over the workouts already stored.\<close>

definition mount :: "config \<Rightarrow> workout list \<Rightarrow> screen" where
  "mount cfg stored =
     commit cfg \<lparr>sess = initialSession (cfg_sets cfg), userId = None, monitor = None,
                 saveEffectDeps = None, workouts = stored\<rparr>"

definition step :: "config \<Rightarrow> screen \<Rightarrow> event \<Rightarrow> screen" where
  "step cfg st ev = commit cfg (handleEvent cfg st ev)"

definition run :: "config \<Rightarrow> workout list \<Rightarrow> event list \<Rightarrow> screen" where
  "run cfg stored evs = foldl (step cfg) (mount cfg stored) evs"

text \<open>The record the save effect writes for a finished session of user \<open>u\<close>.\<close>

definition finalRecord :: "config \<Rightarrow> string \<Rightarrow> screen \<Rightarrow> workout" where
  "finalRecord cfg u st =
     \<lparr>w_userId = u, w_machineName = cfg_machineName cfg,
      w_sets = cfg_sets cfg, w_reps = cfg_reps cfg,
      w_setRepsCompleted = setRepsCompleted (sess st),
      w_setRestTimes = setRestTimes (sess st)\<rparr>"

text \<open>
  What holds of the screen after every render: the arrays have one entry per set, the
  current set exists, the sets after it are untouched, the rest drawer is only shown
  before the last set, a live subscription belongs to the current set and to a screen
  that is neither resting nor complete, the user id is the one \<open>getUser\<close> gives, and
  the save effect has seen the current dependencies.
\<close>

definition settled :: "config \<Rightarrow> screen \<Rightarrow> bool" where
  "settled cfg st =
     (length (setRepsCompleted (sess st)) = nat (cfg_sets cfg)
      \<and> currentSetIndex (sess st) < nat (cfg_sets cfg)
      \<and> list_all (\<lambda>r. r = 0) (drop (Suc (currentSetIndex (sess st))) (setRepsCompleted (sess st)))
      \<and> (if showRestDrawer (sess st) then int (currentSetIndex (sess st)) < cfg_sets cfg - 1 else True)
      \<and> (case monitor st of
            None \<Rightarrow> True
          | Some cl \<Rightarrow> cl_currentSetIndex cl = currentSetIndex (sess st)
                       \<and> \<not> cl_isAllSetsComplete cl
                       \<and> \<not> showRestDrawer (sess st)
                       \<and> \<not> isAllSetsComplete (cfg_reps cfg) (sess st))
      \<and> (userId st = None \<or> userId st = cfg_authUser cfg)
      \<and> saveEffectDeps st = Some (saveDeps cfg st))"

section \<open>Properties of the navigation parameters\<close>

lemma sessionSets_range: "1 \<le> sessionSets p \<and> sessionSets p \<le> 20"
  by (auto simp: sessionSets_def Let_def split: option.splits)

lemma sessionReps_range: "1 \<le> sessionReps p \<and> sessionReps p \<le> 50"
  by (auto simp: sessionReps_def Let_def split: option.splits)

lemma parseInt_Nil: "parseInt [] = None"
  by (simp add: parseInt_def)

lemma sessionSets_Some:
  "sessionSets (Some s) = (case parseInt s of None \<Rightarrow> 3 | Some n \<Rightarrow> if n < 1 then 3 else min 20 n)"
  by (cases "s = []") (simp_all add: sessionSets_def parseInt_Nil)

lemma sessionReps_Some:
  "sessionReps (Some s) = (case parseInt s of None \<Rightarrow> 10 | Some n \<Rightarrow> if n < 1 then 10 else min 50 n)"
  by (cases "s = []") (simp_all add: sessionReps_def parseInt_Nil)

text \<open>
  C8, as the claim states it, fails: the input \<open>"0"\<close> parses to 0, whose clamp into
  [1,20] is 1, while the screen takes the default 3.
\<close>

theorem sessionSets_not_clamp:
  "\<not> (\<forall>s n. parseInt s = Some n \<longrightarrow> sessionSets (Some s) = specClamp 1 20 n)"
proof
  assume a: "\<forall>s n. parseInt s = Some n \<longrightarrow> sessionSets (Some s) = specClamp 1 20 n"
  have p: "parseInt ''0'' = Some 0" by code_simp
  have v: "sessionSets (Some ''0'') = 3" by code_simp
  from a p have "sessionSets (Some ''0'') = specClamp 1 20 0" by blast
  with v show False by (simp add: specClamp_def)
qed

text \<open>
  C8, amended: for every parameter the resulting sets value lies in [1,20] and the reps
  value in [1,50]; an absent parameter, and one \<open>parseInt\<close> reads no number from, gives
  3 sets and 10 reps; so does one that parses to a number below 1 (it is not raised to
  1); a parameter that parses to \<open>n \<ge> 1\<close> gives \<open>min 20 n\<close> sets and \<open>min 50 n\<close>
  reps, which is then also the clamp of \<open>n\<close> into the interval.
\<close>

theorem session_params_validated:
  "1 \<le> sessionSets p \<and> sessionSets p \<le> 20 \<and> 1 \<le> sessionReps p \<and> sessionReps p \<le> 50
   \<and> sessionSets None = 3 \<and> sessionReps None = 10
   \<and> (parseInt s = None \<longrightarrow> sessionSets (Some s) = 3 \<and> sessionReps (Some s) = 10)
   \<and> (parseInt s = Some n \<and> n < 1 \<longrightarrow> sessionSets (Some s) = 3 \<and> sessionReps (Some s) = 10)
   \<and> (parseInt s = Some n \<and> 1 \<le> n \<longrightarrow>
        sessionSets (Some s) = min 20 n \<and> sessionSets (Some s) = specClamp 1 20 n
        \<and> sessionReps (Some s) = min 50 n \<and> sessionReps (Some s) = specClamp 1 50 n)"
proof -
  have r: "1 \<le> sessionSets p \<and> sessionSets p \<le> 20 \<and> 1 \<le> sessionReps p \<and> sessionReps p \<le> 50"
    using sessionSets_range [of p] sessionReps_range [of p] by simp
  have d: "sessionSets None = 3 \<and> sessionReps None = 10"
    by (simp add: sessionSets_def sessionReps_def)
  have n: "parseInt s = None \<longrightarrow> sessionSets (Some s) = 3 \<and> sessionReps (Some s) = 10"
    by (simp add: sessionSets_Some sessionReps_Some)
  have l: "parseInt s = Some n \<and> n < 1 \<longrightarrow> sessionSets (Some s) = 3 \<and> sessionReps (Some s) = 10"
    by (simp add: sessionSets_Some sessionReps_Some)
  have g: "parseInt s = Some n \<and> 1 \<le> n \<longrightarrow>
        sessionSets (Some s) = min 20 n \<and> sessionSets (Some s) = specClamp 1 20 n
        \<and> sessionReps (Some s) = min 50 n \<and> sessionReps (Some s) = specClamp 1 50 n"
    by (auto simp: sessionSets_Some sessionReps_Some specClamp_def)
  from r d n l g show ?thesis by blast
qed

theorem session_params_validated_witness:
  "parseInt ''abc'' = None \<and> sessionSets (Some ''abc'') = 3 \<and> sessionReps (Some ''abc'') = 10
   \<and> parseInt ''-4'' = Some (- 4) \<and> sessionSets (Some ''-4'') = 3
   \<and> parseInt ''75 reps'' = Some 75 \<and> sessionSets (Some ''75 reps'') = 20
   \<and> sessionReps (Some ''75 reps'') = 50"
proof -
  have a: "parseInt ''abc'' = None" by code_simp
  have b: "parseInt ''-4'' = Some (- 4)" by code_simp
  have c: "parseInt ''75 reps'' = Some 75" by code_simp
  from a session_params_validated [of "Some ''abc''" "''abc''" 0]
  have 1: "sessionSets (Some ''abc'') = 3 \<and> sessionReps (Some ''abc'') = 10" by blast
  from b session_params_validated [of "Some ''-4''" "''-4''" "- 4"]
  have 2: "sessionSets (Some ''-4'') = 3" by simp
  from c session_params_validated [of "Some ''75 reps''" "''75 reps''" 75]
  have 3: "sessionSets (Some ''75 reps'') = 20 \<and> sessionReps (Some ''75 reps'') = 50" by simp
  from a b c 1 2 3 show ?thesis by blast
qed

section \<open>Properties of the peripheral match\<close>

lemma matchesMac_iff:
  "matchesMac (Some m) d = (toLowerCase (dev_id d) = toLowerCase m)"
  by (auto simp: matchesMac_def)

lemma matchesName_None_iff:
  "matchesName tn None d = (toLowerCase (deviceName d) = toLowerCase tn)"
  by (auto simp: matchesName_def)

text \<open>
  C7, as the claim states it, fails: with no target address and the target name
  \<open>IMU-STACK\<close>, a peripheral advertising \<open>imu-stack\<close> is selected, although neither of
  its names equals the target name.
\<close>

theorem name_match_not_case_sensitive:
  "\<not> (\<forall>sn d. matches sn None (Some d) \<longrightarrow>
         dev_name d = Some (targetName sn) \<or> dev_localName d = Some (targetName sn))"
proof
  assume a: "\<forall>sn d. matches sn None (Some d) \<longrightarrow>
         dev_name d = Some (targetName sn) \<or> dev_localName d = Some (targetName sn)"
  let ?d = "\<lparr>dev_id = ''C4:5B:BE:00:11:22'', dev_name = Some ''imu-stack'', dev_localName = None\<rparr>"
  have m: "matches ''IMU-STACK'' None (Some ?d)" by code_simp
  have t: "targetName ''IMU-STACK'' = ''IMU-STACK''" by code_simp
  from a m have "dev_name ?d = Some (targetName ''IMU-STACK'') \<or> dev_localName ?d = Some (targetName ''IMU-STACK'')"
    by blast
  with t show False by simp
qed

text \<open>
  C7, amended: when the target specifies an address (one that is not blank), a
  discovered peripheral is selected exactly when its identifier equals the address up to
  letter case, whatever it advertises as a name, so a name-matching peripheral with
  another address is not selected; when the target specifies no address, it is selected
  exactly when its name equals the target name up to letter case, where its name is the
  primary name, or the local name when the primary name is absent or empty; an identical
  string is such a match; no peripheral, no match.
\<close>

theorem matches_address_before_name:
  "(targetMac sensorMac = Some m \<longrightarrow>
      matches sensorName sensorMac (Some d) = (toLowerCase (dev_id d) = toLowerCase m))
   \<and> (targetMac sensorMac = None \<longrightarrow>
      matches sensorName sensorMac (Some d)
        = (toLowerCase (deviceName d) = toLowerCase (targetName sensorName)))
   \<and> (targetMac sensorMac = Some (dev_id d) \<longrightarrow> matches sensorName sensorMac (Some d))
   \<and> (targetMac sensorMac = None \<and> deviceName d = targetName sensorName \<longrightarrow>
      matches sensorName sensorMac (Some d))
   \<and> \<not> matches sensorName sensorMac None"
proof -
  have a: "targetMac sensorMac = Some m \<longrightarrow>
      matches sensorName sensorMac (Some d) = (toLowerCase (dev_id d) = toLowerCase m)"
    by (auto simp: matches_def matchesMac_iff matchesName_def)
  have b: "targetMac sensorMac = None \<longrightarrow>
      matches sensorName sensorMac (Some d)
        = (toLowerCase (deviceName d) = toLowerCase (targetName sensorName))"
    by (auto simp: matches_def matchesMac_def matchesName_None_iff)
  have c: "targetMac sensorMac = Some (dev_id d) \<longrightarrow> matches sensorName sensorMac (Some d)"
    by (auto simp: matches_def matchesMac_def)
  have e: "targetMac sensorMac = None \<and> deviceName d = targetName sensorName \<longrightarrow>
      matches sensorName sensorMac (Some d)"
    by (auto simp: matches_def matchesName_def)
  have f: "\<not> matches sensorName sensorMac None"
    by (simp add: matches_def)
  from a b c e f show ?thesis by blast
qed

theorem matches_address_before_name_witness:
  "targetMac (Some '' c4:5b:be:00:11:22 '') = Some ''c4:5b:be:00:11:22''
   \<and> matches ''IMU-STACK'' (Some '' c4:5b:be:00:11:22 '')
        (Some \<lparr>dev_id = ''C4:5B:BE:00:11:22'', dev_name = Some ''other'', dev_localName = None\<rparr>)
   \<and> \<not> matches ''IMU-STACK'' (Some '' c4:5b:be:00:11:22 '')
        (Some \<lparr>dev_id = ''C4:5B:BE:00:11:23'', dev_name = Some ''IMU-STACK'', dev_localName = None\<rparr>)
   \<and> targetMac (Some '' '') = None
   \<and> matches ''IMU-STACK'' (Some '' '')
        (Some \<lparr>dev_id = ''C4:5B:BE:00:11:23'', dev_name = Some [], dev_localName = Some ''IMU-STACK''\<rparr>)"
proof -
  let ?mac = "'' c4:5b:be:00:11:22 ''"
  let ?d1 = "\<lparr>dev_id = ''C4:5B:BE:00:11:22'', dev_name = Some ''other'', dev_localName = None\<rparr>"
  let ?d2 = "\<lparr>dev_id = ''C4:5B:BE:00:11:23'', dev_name = Some ''IMU-STACK'', dev_localName = None\<rparr>"
  let ?d3 = "\<lparr>dev_id = ''C4:5B:BE:00:11:23'', dev_name = Some [], dev_localName = Some ''IMU-STACK''\<rparr>"
  have t: "targetMac (Some ?mac) = Some ''c4:5b:be:00:11:22''" by code_simp
  have l1: "toLowerCase (dev_id ?d1) = toLowerCase ''c4:5b:be:00:11:22''" by code_simp
  have l2: "toLowerCase (dev_id ?d2) \<noteq> toLowerCase ''c4:5b:be:00:11:22''" by code_simp
  have u: "targetMac (Some '' '') = None" by code_simp
  have l3: "deviceName ?d3 = targetName ''IMU-STACK''" by code_simp
  from t l1 matches_address_before_name [of "Some ?mac" "''c4:5b:be:00:11:22''" "''IMU-STACK''" ?d1]
  have 1: "matches ''IMU-STACK'' (Some ?mac) (Some ?d1)" by blast
  from t l2 matches_address_before_name [of "Some ?mac" "''c4:5b:be:00:11:22''" "''IMU-STACK''" ?d2]
  have 2: "\<not> matches ''IMU-STACK'' (Some ?mac) (Some ?d2)" by blast
  from u l3 matches_address_before_name [of "Some '' ''" "[]" "''IMU-STACK''" ?d3]
  have 3: "matches ''IMU-STACK'' (Some '' '') (Some ?d3)" by blast
  from t u 1 2 3 show ?thesis by blast
qed

section \<open>Properties of incrementRep and its loop\<close>

lemma length_bumpRep: "length (bumpRep reps i xs) = length xs"
  by (simp add: bumpRep_def)

lemma bumpRep_nth_other: "j \<noteq> i \<Longrightarrow> bumpRep reps i xs ! j = xs ! j"
  by (simp add: bumpRep_def)

lemma bumpRep_mono: "j < length xs \<Longrightarrow> xs ! j \<le> bumpRep reps i xs ! j"
  by (cases "j = i") (simp_all add: bumpRep_def)

lemma bumpRep_bound: "j < length xs \<Longrightarrow> xs ! j \<le> reps \<Longrightarrow> bumpRep reps i xs ! j \<le> reps"
  by (cases "j = i") (simp_all add: bumpRep_def)

lemma incrementRep_reps:
  "setRepsCompleted (incrementRep sets reps cl s) =
     (if cl_isAllSetsComplete cl then setRepsCompleted s
      else bumpRep reps (cl_currentSetIndex cl) (setRepsCompleted s))"
  by (simp add: incrementRep_def Let_def)

lemma incrementRep_frame_fields:
  "setRestTimes (incrementRep sets reps cl s) = setRestTimes s
   \<and> setRestTimesRef (incrementRep sets reps cl s) = setRestTimesRef s
   \<and> currentSetIndex (incrementRep sets reps cl s) = currentSetIndex s
   \<and> restTimer (incrementRep sets reps cl s) = restTimer s
   \<and> bleLastText (incrementRep sets reps cl s) = bleLastText s
   \<and> bleNotifyCount (incrementRep sets reps cl s) = bleNotifyCount s
   \<and> bleLastError (incrementRep sets reps cl s) = bleLastError s
   \<and> currentRepsRef (incrementRep sets reps cl s) = currentRepsRef s
   \<and> showRestDrawerRef (incrementRep sets reps cl s) = showRestDrawerRef s"
  by (simp add: incrementRep_def Let_def)

lemma incrementRep_complete: "cl_isAllSetsComplete cl \<Longrightarrow> incrementRep sets reps cl s = s"
  by (simp add: incrementRep_def)

lemma incrementRepLoop_frame_fields:
  "setRestTimes (incrementRepLoop sets reps cl n s) = setRestTimes s
   \<and> setRestTimesRef (incrementRepLoop sets reps cl n s) = setRestTimesRef s
   \<and> currentSetIndex (incrementRepLoop sets reps cl n s) = currentSetIndex s
   \<and> restTimer (incrementRepLoop sets reps cl n s) = restTimer s
   \<and> bleLastText (incrementRepLoop sets reps cl n s) = bleLastText s
   \<and> bleNotifyCount (incrementRepLoop sets reps cl n s) = bleNotifyCount s
   \<and> bleLastError (incrementRepLoop sets reps cl n s) = bleLastError s
   \<and> currentRepsRef (incrementRepLoop sets reps cl n s) = currentRepsRef s
   \<and> showRestDrawerRef (incrementRepLoop sets reps cl n s) = showRestDrawerRef s"
  by (induction n arbitrary: s) (simp_all add: incrementRep_frame_fields)

lemma incrementRepLoop_length:
  "length (setRepsCompleted (incrementRepLoop sets reps cl n s)) = length (setRepsCompleted s)"
  by (induction n arbitrary: s) (simp_all add: incrementRep_reps length_bumpRep)

lemma incrementRepLoop_mono:
  "j < length (setRepsCompleted s) \<Longrightarrow>
   setRepsCompleted s ! j \<le> setRepsCompleted (incrementRepLoop sets reps cl n s) ! j"
proof (induction n arbitrary: s)
  case 0
  then show ?case by simp
next
  case (Suc n)
  let ?s1 = "incrementRep sets reps cl s"
  have l: "length (setRepsCompleted ?s1) = length (setRepsCompleted s)"
    by (simp add: incrementRep_reps length_bumpRep)
  have "setRepsCompleted s ! j \<le> setRepsCompleted ?s1 ! j"
    using Suc.prems by (simp add: incrementRep_reps bumpRep_mono)
  also have "\<dots> \<le> setRepsCompleted (incrementRepLoop sets reps cl n ?s1) ! j"
    using Suc.prems l by (intro Suc.IH) simp
  finally show ?case by simp
qed

lemma incrementRepLoop_bound:
  "j < length (setRepsCompleted s) \<Longrightarrow> setRepsCompleted s ! j \<le> reps \<Longrightarrow>
   setRepsCompleted (incrementRepLoop sets reps cl n s) ! j \<le> reps"
proof (induction n arbitrary: s)
  case 0
  then show ?case by simp
next
  case (Suc n)
  let ?s1 = "incrementRep sets reps cl s"
  have l: "length (setRepsCompleted ?s1) = length (setRepsCompleted s)"
    by (simp add: incrementRep_reps length_bumpRep)
  have b: "setRepsCompleted ?s1 ! j \<le> reps"
    using Suc.prems by (simp add: incrementRep_reps bumpRep_bound)
  show ?case using Suc.IH [of ?s1] Suc.prems l b by simp
qed

lemma incrementRepLoop_other:
  "j \<noteq> cl_currentSetIndex cl \<Longrightarrow>
   setRepsCompleted (incrementRepLoop sets reps cl n s) ! j = setRepsCompleted s ! j"
  by (induction n arbitrary: s) (simp_all add: incrementRep_reps bumpRep_nth_other)

lemma incrementRepLoop_exact:
  "\<not> cl_isAllSetsComplete cl \<Longrightarrow> cl_currentSetIndex cl < length (setRepsCompleted s) \<Longrightarrow>
   setRepsCompleted s ! cl_currentSetIndex cl + int n \<le> reps \<Longrightarrow>
   setRepsCompleted (incrementRepLoop sets reps cl n s)
     = (setRepsCompleted s)[cl_currentSetIndex cl := setRepsCompleted s ! cl_currentSetIndex cl + int n]"
proof (induction n arbitrary: s)
  case 0
  then show ?case by simp
next
  case (Suc n)
  let ?i = "cl_currentSetIndex cl"
  let ?s1 = "incrementRep sets reps cl s"
  have e: "setRepsCompleted ?s1 = (setRepsCompleted s)[?i := setRepsCompleted s ! ?i + 1]"
    using Suc.prems by (simp add: incrementRep_reps bumpRep_def)
  have "setRepsCompleted (incrementRepLoop sets reps cl n ?s1)
     = (setRepsCompleted ?s1)[?i := setRepsCompleted ?s1 ! ?i + int n]"
    using Suc.prems e by (intro Suc.IH) simp_all
  then show ?case using Suc.prems e by (simp add: add.assoc)
qed

section \<open>Properties of the decoder\<close>

lemma digit_not_separator: "isDigit c \<Longrightarrow> \<not> isSeparator c"
  by (auto simp: isDigit_def isSeparator_def isWhiteSpace_def)

lemma digit_not_space: "isDigit c \<Longrightarrow> \<not> isWhiteSpace c \<and> c \<noteq> CHR ''+'' \<and> c \<noteq> CHR ''-''"
  by (auto simp: isDigit_def isWhiteSpace_def)

lemma takeWhile_digits:
  assumes "list_all isDigit ds" and "case rest of [] \<Rightarrow> True | c # _ \<Rightarrow> \<not> isDigit c"
  shows "takeWhile isDigit (ds @ rest) = ds"
proof -
  have "takeWhile isDigit rest = []" using assms(2) by (cases rest) simp_all
  moreover have "\<And>x. x \<in> set ds \<Longrightarrow> isDigit x" using assms(1) by (simp add: list_all_iff)
  ultimately show ?thesis by (simp add: takeWhile_append2)
qed

text \<open>Numbers: every integer below \<open>2^53\<close> is its own Number, and the conversion of a
  non-negative integer lies between 0 and \<open>Infinity\<close>.\<close>

lemma toNumber_exact: "n < 2 ^ 53 \<Longrightarrow> toNumber n = n"
  by (simp add: toNumber_def)

lemma toNumber_range:
  assumes "0 \<le> n"
  shows "0 \<le> toNumber n \<and> toNumber n \<le> numberInfinity"
proof (cases "n < 9007199254740992")
  case True
  then show ?thesis using assms by (simp add: toNumber_def numberInfinity_def)
next
  case False
  have q: "0 \<le> n div 2 ^ binaryExponent n" using assms by (simp add: pos_imp_zdiv_nonneg_iff)
  have i: "(0::int) \<le> numberInfinity" by (simp add: numberInfinity_def)
  from False q i show ?thesis by (simp add: toNumber_def Let_def)
qed

text \<open>
  Above \<open>2^53\<close> the conversion is the nearest double: \<open>binaryExponent n\<close> leaves a
  significand of 53 bits, the result is a multiple of that power of two within half a
  unit of \<open>n\<close>, and at exactly half a unit the even significand is taken.
\<close>

lemma binaryExponent_significand:
  "2 ^ 53 \<le> n \<Longrightarrow>
     0 < binaryExponent n \<and> 2 ^ 52 \<le> n div 2 ^ binaryExponent n \<and> n div 2 ^ binaryExponent n < 2 ^ 53"
proof (induction n rule: binaryExponent.induct)
  case (1 n)
  have e: "binaryExponent n = Suc (binaryExponent (n div 2))"
    using "1.prems" by (subst binaryExponent.simps) simp
  have d: "n div 2 ^ Suc (binaryExponent (n div 2)) = (n div 2) div 2 ^ binaryExponent (n div 2)"
    by (simp add: zdiv_zmult2_eq)
  show ?case
  proof (cases "n div 2 < 9007199254740992")
    case True
    then have z: "binaryExponent (n div 2) = 0" by (subst binaryExponent.simps) simp
    from "1.prems" have "2 ^ 52 \<le> n div 2" by simp
    with True e z show ?thesis by simp
  next
    case False
    with "1.IH" "1.prems" have "2 ^ 52 \<le> (n div 2) div 2 ^ binaryExponent (n div 2)
       \<and> (n div 2) div 2 ^ binaryExponent (n div 2) < 2 ^ 53" by simp
    with e d show ?thesis by simp
  qed
qed

lemma toNumber_nearest:
  assumes "2 ^ 53 \<le> n" and "toNumber n \<noteq> numberInfinity"
  shows "toNumber n mod 2 ^ binaryExponent n = 0
     \<and> 2 ^ 52 \<le> toNumber n div 2 ^ binaryExponent n
     \<and> toNumber n div 2 ^ binaryExponent n \<le> 2 ^ 53
     \<and> 2 * \<bar>toNumber n - n\<bar> \<le> 2 ^ binaryExponent n
     \<and> (if 2 * \<bar>toNumber n - n\<bar> = 2 ^ binaryExponent n then even (toNumber n div 2 ^ binaryExponent n) else True)"
proof -
  define e where "e = binaryExponent n"
  define q where "q = n div 2 ^ e"
  define r where "r = n mod 2 ^ e"
  define q' where "q' = (if r > 2 ^ (e - 1) \<or> (r = 2 ^ (e - 1) \<and> odd q) then q + 1 else q)"
  from binaryExponent_significand [OF assms(1)]
  have e0: "0 < e" and q1: "2 ^ 52 \<le> q" and q2: "q < 2 ^ 53" by (simp_all add: e_def q_def)
  have ne: "\<not> n < 9007199254740992" using assms(1) by simp
  have "toNumber n = (if q' * 2 ^ e \<ge> numberInfinity then numberInfinity else q' * 2 ^ e)"
    using ne by (simp add: toNumber_def Let_def e_def q_def r_def q'_def)
  with assms(2) have t: "toNumber n = q' * 2 ^ e" by (cases "q' * 2 ^ e \<ge> numberInfinity") simp_all
  have p: "(2::int) ^ e = 2 * 2 ^ (e - 1)" using e0 by (cases e) simp_all
  have n: "n = q * 2 ^ e + r" unfolding q_def r_def by (rule div_mult_mod_eq [symmetric])
  have r0: "0 \<le> r" and r1: "r < 2 ^ e" by (simp_all add: r_def)
  have m: "toNumber n mod 2 ^ e = 0" by (simp add: t)
  have dv: "toNumber n div 2 ^ e = q'" by (simp add: t)
  have qq: "2 ^ 52 \<le> q' \<and> q' \<le> 2 ^ 53" using q1 q2 by (simp add: q'_def)
  have df: "toNumber n - n = (q' - q) * 2 ^ e - r"
    unfolding t by (subst n) (simp add: algebra_simps)
  have ab: "2 * \<bar>toNumber n - n\<bar> \<le> 2 ^ e"
    unfolding df q'_def using r0 r1 p by (auto simp: algebra_simps)
  have tie: "2 * \<bar>toNumber n - n\<bar> = 2 ^ e \<Longrightarrow> even q'"
    unfolding df q'_def using r0 r1 p by (auto simp: algebra_simps split: if_splits)
  from m dv qq ab tie show ?thesis unfolding e_def by auto
qed

lemma toNumber_examples:
  "toNumber 9007199254740991 = 9007199254740991
   \<and> toNumber 9007199254740993 = 9007199254740992
   \<and> toNumber 9007199254740995 = 9007199254740996
   \<and> toNumber 100000000000000000000001 = 100000000000000008388608
   \<and> toNumber (numberInfinity - 2 ^ 970 - 1) = numberInfinity - 2 ^ 971
   \<and> toNumber (numberInfinity - 2 ^ 970) = numberInfinity"
  by code_simp

lemma isFiniteNumber_toNumber:
  "0 \<le> n \<Longrightarrow> isFiniteNumber (toNumber n) \<longleftrightarrow> toNumber n \<noteq> numberInfinity"
  using toNumber_range [of n] by (auto simp: isFiniteNumber_def numberInfinity_def)

lemma isFiniteNumber_small: "0 \<le> n \<Longrightarrow> n < 2 ^ 53 \<Longrightarrow> isFiniteNumber n"
  by (simp add: isFiniteNumber_def numberInfinity_def)

lemma decimalValue_nonneg:
  assumes "list_all isDigit ds"
  shows "0 \<le> decimalValue ds"
proof -
  have d: "\<And>c. isDigit c \<Longrightarrow> 0 \<le> digitVal c"
    by (auto simp: isDigit_def digitVal_def)
  have "\<And>a. 0 \<le> a \<Longrightarrow> list_all isDigit ds \<Longrightarrow> 0 \<le> foldl (\<lambda>a c. 10 * a + digitVal c) a ds"
  proof (induction ds)
    case Nil
    then show ?case by simp
  next
    case (Cons c cs)
    from Cons.prems d [of c] have "0 \<le> 10 * a + digitVal c" by simp
    with Cons show ?case by simp
  qed
  with assms show ?thesis by (simp add: decimalValue_def)
qed

lemma parseInt_digits:
  assumes "ds \<noteq> []" and "list_all isDigit ds"
  shows "parseInt ds = Some (toNumber (decimalValue ds))"
proof -
  obtain d ds' where e: "ds = d # ds'" using assms(1) by (cases ds) auto
  have d: "isDigit d" using assms(2) e by simp
  have t: "takeWhile isDigit ds = ds"
    using takeWhile_digits [of ds "[]"] assms(2) by simp
  from digit_not_space [OF d] t e show ?thesis
    by (simp add: parseInt_def)
qed

lemma repsLabelAt_labelled: "repsLabelAt t = Some ds \<longleftrightarrow> labelledCount t ds"
proof
  assume a: "repsLabelAt t = Some ds"
  then obtain r e p s rest where t: "t = r # e # p # s # rest"
    by (cases t rule: repsLabelAt.cases) auto
  let ?seps = "takeWhile isSeparator rest"
  let ?rem = "dropWhile isSeparator rest"
  let ?rest = "dropWhile isDigit ?rem"
  from a t have l: "eqIgnoreCase CHR ''R'' r \<and> eqIgnoreCase CHR ''E'' e
         \<and> eqIgnoreCase CHR ''P'' p \<and> eqIgnoreCase CHR ''S'' s"
    and ds: "ds = takeWhile isDigit ?rem" and ne: "ds \<noteq> []"
    by (auto simp: Let_def split: if_splits)
  have 1: "t = [r, e, p, s] @ ?seps @ ds @ ?rest" using t ds by simp
  have 2: "list_all2 eqIgnoreCase ''REPS'' [r, e, p, s]" using l by simp
  have 3: "list_all isSeparator ?seps" by (auto simp: list_all_iff dest: set_takeWhileD)
  have 4: "list_all isDigit ds" unfolding ds by (auto simp: list_all_iff dest: set_takeWhileD)
  have 5: "case ?rest of [] \<Rightarrow> True | c # _ \<Rightarrow> \<not> isDigit c"
  proof (cases ?rest)
    case Nil
    then show ?thesis by (simp only: list.case)
  next
    case (Cons c cs)
    then have "\<not> isDigit c" by (simp add: dropWhile_eq_Cons_conv)
    with Cons show ?thesis by (simp del: dropWhile_eq_Nil_conv)
  qed
  from 1 2 3 4 5 ne show "labelledCount t ds" unfolding labelledCount_def by blast
next
  assume "labelledCount t ds"
  then obtain lab seps rest where t: "t = lab @ seps @ ds @ rest"
    and lab: "list_all2 eqIgnoreCase ''REPS'' lab"
    and seps: "list_all isSeparator seps"
    and ne: "ds \<noteq> []" and dig: "list_all isDigit ds"
    and rest: "case rest of [] \<Rightarrow> True | c # _ \<Rightarrow> \<not> isDigit c"
    unfolding labelledCount_def by blast
  from lab obtain r e p s where l4: "lab = [r, e, p, s]"
    and l: "eqIgnoreCase CHR ''R'' r" "eqIgnoreCase CHR ''E'' e"
           "eqIgnoreCase CHR ''P'' p" "eqIgnoreCase CHR ''S'' s"
    by (auto simp: list_all2_Cons1)
  obtain d ds' where e: "ds = d # ds'" using ne by (cases ds) auto
  have nd: "\<not> isSeparator d" using dig e digit_not_separator by simp
  have "\<And>x. x \<in> set seps \<Longrightarrow> isSeparator x" using seps by (simp add: list_all_iff)
  then have dw: "dropWhile isSeparator (seps @ ds @ rest) = ds @ rest"
    using nd e by (simp add: dropWhile_append2)
  have tw: "takeWhile isDigit (ds @ rest) = ds" using dig rest by (rule takeWhile_digits)
  show "repsLabelAt t = Some ds"
    using l ne by (simp add: t l4 dw tw)
qed

lemma labelledCount_Nil: "\<not> labelledCount [] ds"
  using repsLabelAt_labelled [of "[]" ds] by simp

lemma matchReps_None_iff:
  "matchReps t = None \<longleftrightarrow> (\<forall>pre suf ds. t = pre @ suf \<longrightarrow> \<not> labelledCount suf ds)"
proof (induction t)
  case Nil
  then show ?case by (simp add: labelledCount_Nil)
next
  case (Cons c cs)
  have "matchReps (c # cs) = None \<longleftrightarrow> repsLabelAt (c # cs) = None \<and> matchReps cs = None"
    by (simp split: option.splits)
  also have "\<dots> \<longleftrightarrow> (\<forall>ds. \<not> labelledCount (c # cs) ds)
       \<and> (\<forall>pre suf ds. cs = pre @ suf \<longrightarrow> \<not> labelledCount suf ds)"
    using Cons.IH repsLabelAt_labelled [of "c # cs"] by (metis not_Some_eq)
  also have "\<dots> \<longleftrightarrow> (\<forall>pre suf ds. c # cs = pre @ suf \<longrightarrow> \<not> labelledCount suf ds)"
    by (auto simp: Cons_eq_append_conv)
  finally show ?case .
qed

lemma matchReps_Some_iff:
  "matchReps t = Some ds \<longleftrightarrow>
     (\<exists>pre suf. t = pre @ suf \<and> labelledCount suf ds
        \<and> (\<forall>p s d. t = p @ s \<and> length p < length pre \<longrightarrow> \<not> labelledCount s d))"
proof (induction t)
  case Nil
  then show ?case by (simp add: labelledCount_Nil)
next
  case (Cons c cs)
  show ?case
  proof (cases "repsLabelAt (c # cs)")
    case (Some es)
    then have m: "matchReps (c # cs) = Some es" by simp
    have le: "labelledCount (c # cs) es" using Some repsLabelAt_labelled by blast
    show ?thesis
    proof
      assume "matchReps (c # cs) = Some ds"
      with m have "es = ds" by simp
      with le have "c # cs = [] @ (c # cs) \<and> labelledCount (c # cs) ds
        \<and> (\<forall>p s d. c # cs = p @ s \<and> length p < length ([]::string) \<longrightarrow> \<not> labelledCount s d)"
        by simp
      then show "\<exists>pre suf. c # cs = pre @ suf \<and> labelledCount suf ds
        \<and> (\<forall>p s d. c # cs = p @ s \<and> length p < length pre \<longrightarrow> \<not> labelledCount s d)"
        by blast
    next
      assume "\<exists>pre suf. c # cs = pre @ suf \<and> labelledCount suf ds
        \<and> (\<forall>p s d. c # cs = p @ s \<and> length p < length pre \<longrightarrow> \<not> labelledCount s d)"
      then obtain pre suf where h: "c # cs = pre @ suf" "labelledCount suf ds"
        "\<forall>p s d. c # cs = p @ s \<and> length p < length pre \<longrightarrow> \<not> labelledCount s d" by blast
      have "pre = []"
      proof (rule ccontr)
        assume "pre \<noteq> []"
        then have "c # cs = [] @ (c # cs) \<and> length ([]::string) < length pre" by simp
        with h(3) have "\<not> labelledCount (c # cs) es" by blast
        with le show False by blast
      qed
      with h have "labelledCount (c # cs) ds" by simp
      then have "repsLabelAt (c # cs) = Some ds" using repsLabelAt_labelled by blast
      then show "matchReps (c # cs) = Some ds" by simp
    qed
  next
    case None
    then have m: "matchReps (c # cs) = matchReps cs" by simp
    have nl: "\<And>d. \<not> labelledCount (c # cs) d"
      using None repsLabelAt_labelled [of "c # cs"] by simp
    show ?thesis
    proof
      assume "matchReps (c # cs) = Some ds"
      with m Cons.IH obtain pre suf where h: "cs = pre @ suf" "labelledCount suf ds"
        "\<forall>p s d. cs = p @ s \<and> length p < length pre \<longrightarrow> \<not> labelledCount s d" by auto
      have "\<forall>p s d. c # cs = p @ s \<and> length p < length (c # pre) \<longrightarrow> \<not> labelledCount s d"
      proof (intro allI impI)
        fix p s d
        assume a: "c # cs = p @ s \<and> length p < length (c # pre)"
        show "\<not> labelledCount s d"
        proof (cases p)
          case Nil
          with a nl show ?thesis by simp
        next
          case (Cons x p')
          with a have "cs = p' @ s \<and> length p' < length pre" by simp
          with h(3) show ?thesis by blast
        qed
      qed
      with h have "c # cs = (c # pre) @ suf \<and> labelledCount suf ds
        \<and> (\<forall>p s d. c # cs = p @ s \<and> length p < length (c # pre) \<longrightarrow> \<not> labelledCount s d)"
        by simp
      then show "\<exists>pre suf. c # cs = pre @ suf \<and> labelledCount suf ds
        \<and> (\<forall>p s d. c # cs = p @ s \<and> length p < length pre \<longrightarrow> \<not> labelledCount s d)"
        by blast
    next
      assume "\<exists>pre suf. c # cs = pre @ suf \<and> labelledCount suf ds
        \<and> (\<forall>p s d. c # cs = p @ s \<and> length p < length pre \<longrightarrow> \<not> labelledCount s d)"
      then obtain pre suf where h: "c # cs = pre @ suf" "labelledCount suf ds"
        "\<forall>p s d. c # cs = p @ s \<and> length p < length pre \<longrightarrow> \<not> labelledCount s d" by blast
      from h(1,2) nl obtain pre' where p: "pre = c # pre'" "cs = pre' @ suf"
        by (cases pre) auto
      have "\<forall>p s d. cs = p @ s \<and> length p < length pre' \<longrightarrow> \<not> labelledCount s d"
      proof (intro allI impI)
        fix q s d
        assume "cs = q @ s \<and> length q < length pre'"
        then have "c # cs = (c # q) @ s \<and> length (c # q) < length pre" using p by simp
        with h(3) show "\<not> labelledCount s d" by blast
      qed
      with p h(2) Cons.IH have "matchReps cs = Some ds" by blast
      with m show "matchReps (c # cs) = Some ds" by simp
    qed
  qed
qed

lemma matchNumber_first: "matchNumber t = Some ds \<longleftrightarrow> firstNumber t ds"
proof
  assume a: "matchNumber t = Some ds"
  let ?pre = "takeWhile (\<lambda>c. \<not> isDigit c) t"
  let ?rem = "dropWhile (\<lambda>c. \<not> isDigit c) t"
  let ?rest = "dropWhile isDigit ?rem"
  from a have ds: "ds = takeWhile isDigit ?rem" and ne: "ds \<noteq> []"
    by (auto simp: matchNumber_def Let_def split: if_splits)
  have 1: "t = ?pre @ ds @ ?rest" using ds by simp
  have 2: "list_all (\<lambda>c. \<not> isDigit c) ?pre" by (auto simp: list_all_iff dest: set_takeWhileD)
  have 3: "list_all isDigit ds" unfolding ds by (auto simp: list_all_iff dest: set_takeWhileD)
  have 4: "case ?rest of [] \<Rightarrow> True | c # _ \<Rightarrow> \<not> isDigit c"
  proof (cases ?rest)
    case Nil
    then show ?thesis by (simp only: list.case)
  next
    case (Cons c cs)
    then have "\<not> isDigit c" by (simp add: dropWhile_eq_Cons_conv)
    with Cons show ?thesis by (simp del: dropWhile_eq_Nil_conv)
  qed
  from 1 2 3 4 ne show "firstNumber t ds" unfolding firstNumber_def by blast
next
  assume "firstNumber t ds"
  then obtain pre rest where t: "t = pre @ ds @ rest"
    and pre: "list_all (\<lambda>c. \<not> isDigit c) pre"
    and ne: "ds \<noteq> []" and dig: "list_all isDigit ds"
    and rest: "case rest of [] \<Rightarrow> True | c # _ \<Rightarrow> \<not> isDigit c"
    unfolding firstNumber_def by blast
  obtain d ds' where e: "ds = d # ds'" using ne by (cases ds) auto
  have d: "isDigit d" using dig e by simp
  have "\<And>x. x \<in> set pre \<Longrightarrow> \<not> isDigit x" using pre by (simp add: list_all_iff)
  then have dw: "dropWhile (\<lambda>c. \<not> isDigit c) (pre @ ds @ rest) = ds @ rest"
    using d e by (simp add: dropWhile_append2)
  have tw: "takeWhile isDigit (ds @ rest) = ds" using dig rest by (rule takeWhile_digits)
  show "matchNumber t = Some ds"
    using ne by (simp add: matchNumber_def t dw tw)
qed

lemma matchNumber_None_iff: "matchNumber t = None \<longleftrightarrow> list_all (\<lambda>c. \<not> isDigit c) t"
proof -
  have "takeWhile isDigit (dropWhile (\<lambda>c. \<not> isDigit c) t) = []
         \<longleftrightarrow> dropWhile (\<lambda>c. \<not> isDigit c) t = []"
  proof (cases "dropWhile (\<lambda>c. \<not> isDigit c) t")
    case Nil
    then show ?thesis by (simp del: dropWhile_eq_Nil_conv)
  next
    case (Cons c cs)
    then have "isDigit c" by (simp add: dropWhile_eq_Cons_conv)
    with Cons show ?thesis by (simp del: dropWhile_eq_Nil_conv)
  qed
  then show ?thesis by (simp add: matchNumber_def Let_def list_all_iff)
qed

lemma labelledCount_digit: "labelledCount t ds \<Longrightarrow> \<not> list_all (\<lambda>c. \<not> isDigit c) t"
proof -
  assume "labelledCount t ds"
  then obtain lab seps rest d ds' where "t = lab @ seps @ (d # ds') @ rest" "isDigit d"
    unfolding labelledCount_def by (cases ds) auto
  then show ?thesis by (auto simp: list_all_iff)
qed

lemma matchReps_no_digit:
  assumes "list_all (\<lambda>c. \<not> isDigit c) t"
  shows "matchReps t = None"
proof -
  have "\<forall>pre suf ds. t = pre @ suf \<longrightarrow> \<not> labelledCount suf ds"
  proof (intro allI impI)
    fix pre suf ds
    assume "t = pre @ suf"
    with assms have "list_all (\<lambda>c. \<not> isDigit c) suf" by simp
    then show "\<not> labelledCount suf ds" using labelledCount_digit by blast
  qed
  then show ?thesis by (simp only: matchReps_None_iff)
qed

lemma matchReps_digits:
  assumes "matchReps t = Some ds"
  shows "ds \<noteq> [] \<and> list_all isDigit ds"
proof -
  from assms obtain suf where "labelledCount suf ds"
    unfolding matchReps_Some_iff by blast
  then show ?thesis unfolding labelledCount_def by blast
qed

lemma matchNumber_digits:
  assumes "matchNumber t = Some ds"
  shows "ds \<noteq> [] \<and> list_all isDigit ds"
  using assms unfolding matchNumber_first firstNumber_def by blast

lemma parseRepsNotification_eq:
  "parseRepsNotification t =
     (case matchReps t of Some ds \<Rightarrow> Some (toNumber (decimalValue ds))
      | None \<Rightarrow> (case matchNumber t of Some ds \<Rightarrow> Some (toNumber (decimalValue ds)) | None \<Rightarrow> None))"
  using matchReps_digits [of t] matchNumber_digits [of t]
  by (auto simp: parseRepsNotification_def parseInt_digits split: option.splits)

text \<open>The poll reads what the notification callback reads, unless that is not finite.\<close>

lemma parseRepsPoll_guard:
  "parseRepsPoll t =
     (case parseRepsNotification t of None \<Rightarrow> None
      | Some v \<Rightarrow> if isFiniteNumber v then Some v else None)"
  using matchReps_digits [of t] matchNumber_digits [of t]
  by (auto simp: parseRepsPoll_def parseRepsNotification_def Let_def split: option.splits)

lemma parseRepsNotification_None_iff:
  "parseRepsNotification t = None \<longleftrightarrow> list_all (\<lambda>c. \<not> isDigit c) t"
proof
  assume a: "parseRepsNotification t = None"
  then have "matchNumber t = None"
    by (auto simp: parseRepsNotification_eq split: option.splits)
  then show "list_all (\<lambda>c. \<not> isDigit c) t" by (simp only: matchNumber_None_iff)
next
  assume a: "list_all (\<lambda>c. \<not> isDigit c) t"
  then have "matchReps t = None" by (rule matchReps_no_digit)
  moreover have "matchNumber t = None" using a by (simp only: matchNumber_None_iff)
  ultimately show "parseRepsNotification t = None" by (simp add: parseRepsNotification_eq)
qed
section \<open>The parsing rule\<close>

text \<open>Some texts and what the two paths read from them.\<close>

lemma parse_examples:
  "parseRepsNotification ''abc REPS: 12 x7'' = Some 12
   \<and> parseRepsNotification ''7 reps 9'' = Some 9
   \<and> parseRepsNotification ''REPSx 3 Reps::  04'' = Some 4
   \<and> parseRepsNotification ''rep 15, 16'' = Some 15
   \<and> parseRepsPoll ''7 reps 9'' = Some 9
   \<and> parseRepsNotification ''xyz'' = None
   \<and> parseRepsPoll ''xyz'' = None
   \<and> parseRepsNotification ''REPS:9007199254740993'' = Some 9007199254740992
   \<and> parseRepsPoll ''REPS:9007199254740993'' = Some 9007199254740992"
  by code_simp

text \<open>
  C5: the parse of a sample text proceeds in order. When the text has a labelled count
  (the letters \<open>REPS\<close> in any letter case, then any number of colons and white space,
  also none, then digits), the leftmost one is taken; when it has none, the first run of
  digits anywhere in the text is taken; a text with no digit gives no value, and on the
  notification path only such a text gives none. The value is the Number that
  \<open>parseInt\<close> gives for the digits taken: their decimal value when that is below
  \<open>2^53\<close>, the nearest double above, \<open>Infinity\<close> for the longest runs. The notification
  callback goes on with every such value; the poll takes the same digits and goes on
  only when the value is finite. A text with no digit is recorded as the last text (and
  counted, for a notification) and nothing else of the session changes: no rep or set
  state, and no error is set; the same holds of a poll read whose value is not finite.
\<close>

theorem parse_order:
  "(t = pre @ suf \<and> labelledCount suf ds
      \<and> (\<forall>p s d. t = p @ s \<and> length p < length pre \<longrightarrow> \<not> labelledCount s d)
     \<longrightarrow> parseRepsNotification t = Some (toNumber (decimalValue ds))
         \<and> parseRepsPoll t = (if isFiniteNumber (toNumber (decimalValue ds))
                              then Some (toNumber (decimalValue ds)) else None))
   \<and> ((\<forall>p s d. t = p @ s \<longrightarrow> \<not> labelledCount s d) \<and> firstNumber t ds
     \<longrightarrow> parseRepsNotification t = Some (toNumber (decimalValue ds))
         \<and> parseRepsPoll t = (if isFiniteNumber (toNumber (decimalValue ds))
                              then Some (toNumber (decimalValue ds)) else None))
   \<and> (list_all isDigit ds \<and> decimalValue ds < 2 ^ 53
     \<longrightarrow> toNumber (decimalValue ds) = decimalValue ds
         \<and> isFiniteNumber (toNumber (decimalValue ds)))
   \<and> (list_all (\<lambda>c. \<not> isDigit c) t
     \<longrightarrow> parseRepsNotification t = None \<and> parseRepsPoll t = None
         \<and> onNotification sets reps cl t s
           = s\<lparr>bleLastText := Some t, bleNotifyCount := bleNotifyCount s + 1\<rparr>
         \<and> onPollRead sets reps cl t s = s\<lparr>bleLastText := Some t\<rparr>
         \<and> bleLastError (onNotification sets reps cl t s) = bleLastError s
         \<and> bleLastError (onPollRead sets reps cl t s) = bleLastError s
         \<and> setRepsCompleted (onNotification sets reps cl t s) = setRepsCompleted s
         \<and> setRepsCompleted (onPollRead sets reps cl t s) = setRepsCompleted s
         \<and> currentSetIndex (onNotification sets reps cl t s) = currentSetIndex s
         \<and> currentSetIndex (onPollRead sets reps cl t s) = currentSetIndex s)
   \<and> (parseRepsNotification t = None \<longrightarrow> list_all (\<lambda>c. \<not> isDigit c) t)
   \<and> (parseRepsPoll t = None
     \<longrightarrow> onPollRead sets reps cl t s = s\<lparr>bleLastText := Some t\<rparr>
         \<and> bleLastError (onPollRead sets reps cl t s) = bleLastError s
         \<and> setRepsCompleted (onPollRead sets reps cl t s) = setRepsCompleted s
         \<and> currentSetIndex (onPollRead sets reps cl t s) = currentSetIndex s)"
proof -
  have v: "\<And>ds. matchReps t = Some ds \<or> (matchReps t = None \<and> matchNumber t = Some ds)
     \<Longrightarrow> parseRepsNotification t = Some (toNumber (decimalValue ds))
         \<and> parseRepsPoll t = (if isFiniteNumber (toNumber (decimalValue ds))
                              then Some (toNumber (decimalValue ds)) else None)"
  proof -
    fix ds
    assume "matchReps t = Some ds \<or> (matchReps t = None \<and> matchNumber t = Some ds)"
    then have n: "parseRepsNotification t = Some (toNumber (decimalValue ds))"
      by (auto simp: parseRepsNotification_eq)
    then show "parseRepsNotification t = Some (toNumber (decimalValue ds))
         \<and> parseRepsPoll t = (if isFiniteNumber (toNumber (decimalValue ds))
                              then Some (toNumber (decimalValue ds)) else None)"
      by (simp add: parseRepsPoll_guard)
  qed
  have a: "t = pre @ suf \<and> labelledCount suf ds
      \<and> (\<forall>p s d. t = p @ s \<and> length p < length pre \<longrightarrow> \<not> labelledCount s d)
     \<longrightarrow> parseRepsNotification t = Some (toNumber (decimalValue ds))
         \<and> parseRepsPoll t = (if isFiniteNumber (toNumber (decimalValue ds))
                              then Some (toNumber (decimalValue ds)) else None)"
  proof
    assume h: "t = pre @ suf \<and> labelledCount suf ds
      \<and> (\<forall>p s d. t = p @ s \<and> length p < length pre \<longrightarrow> \<not> labelledCount s d)"
    then have "matchReps t = Some ds" unfolding matchReps_Some_iff by blast
    then show "parseRepsNotification t = Some (toNumber (decimalValue ds))
         \<and> parseRepsPoll t = (if isFiniteNumber (toNumber (decimalValue ds))
                              then Some (toNumber (decimalValue ds)) else None)"
      using v [of ds] by blast
  qed
  have b: "(\<forall>p s d. t = p @ s \<longrightarrow> \<not> labelledCount s d) \<and> firstNumber t ds
     \<longrightarrow> parseRepsNotification t = Some (toNumber (decimalValue ds))
         \<and> parseRepsPoll t = (if isFiniteNumber (toNumber (decimalValue ds))
                              then Some (toNumber (decimalValue ds)) else None)"
  proof
    assume h: "(\<forall>p s d. t = p @ s \<longrightarrow> \<not> labelledCount s d) \<and> firstNumber t ds"
    then have 1: "matchReps t = None" unfolding matchReps_None_iff by blast
    from h have 2: "matchNumber t = Some ds" by (simp only: matchNumber_first)
    from 1 2 show "parseRepsNotification t = Some (toNumber (decimalValue ds))
         \<and> parseRepsPoll t = (if isFiniteNumber (toNumber (decimalValue ds))
                              then Some (toNumber (decimalValue ds)) else None)"
      using v [of ds] by blast
  qed
  have c: "list_all isDigit ds \<and> decimalValue ds < 2 ^ 53
     \<longrightarrow> toNumber (decimalValue ds) = decimalValue ds
         \<and> isFiniteNumber (toNumber (decimalValue ds))"
    using toNumber_exact [of "decimalValue ds"] decimalValue_nonneg [of ds]
      isFiniteNumber_small [of "decimalValue ds"] by auto
  have f: "parseRepsPoll t = None
     \<longrightarrow> onPollRead sets reps cl t s = s\<lparr>bleLastText := Some t\<rparr>
         \<and> bleLastError (onPollRead sets reps cl t s) = bleLastError s
         \<and> setRepsCompleted (onPollRead sets reps cl t s) = setRepsCompleted s
         \<and> currentSetIndex (onPollRead sets reps cl t s) = currentSetIndex s"
    by (simp add: onPollRead_def)
  have g: "parseRepsNotification t = None
     \<longrightarrow> onNotification sets reps cl t s
           = s\<lparr>bleLastText := Some t, bleNotifyCount := bleNotifyCount s + 1\<rparr>
         \<and> bleLastError (onNotification sets reps cl t s) = bleLastError s
         \<and> setRepsCompleted (onNotification sets reps cl t s) = setRepsCompleted s
         \<and> currentSetIndex (onNotification sets reps cl t s) = currentSetIndex s"
    by (simp add: onNotification_def)
  have n: "list_all (\<lambda>c. \<not> isDigit c) t
     \<longrightarrow> parseRepsNotification t = None \<and> parseRepsPoll t = None"
  proof
    assume "list_all (\<lambda>c. \<not> isDigit c) t"
    then have "parseRepsNotification t = None" by (simp only: parseRepsNotification_None_iff)
    then show "parseRepsNotification t = None \<and> parseRepsPoll t = None"
      by (simp add: parseRepsPoll_guard)
  qed
  have d: "list_all (\<lambda>c. \<not> isDigit c) t
     \<longrightarrow> parseRepsNotification t = None \<and> parseRepsPoll t = None
         \<and> onNotification sets reps cl t s
           = s\<lparr>bleLastText := Some t, bleNotifyCount := bleNotifyCount s + 1\<rparr>
         \<and> onPollRead sets reps cl t s = s\<lparr>bleLastText := Some t\<rparr>
         \<and> bleLastError (onNotification sets reps cl t s) = bleLastError s
         \<and> bleLastError (onPollRead sets reps cl t s) = bleLastError s
         \<and> setRepsCompleted (onNotification sets reps cl t s) = setRepsCompleted s
         \<and> setRepsCompleted (onPollRead sets reps cl t s) = setRepsCompleted s
         \<and> currentSetIndex (onNotification sets reps cl t s) = currentSetIndex s
         \<and> currentSetIndex (onPollRead sets reps cl t s) = currentSetIndex s"
    using n f g by blast
  have e: "parseRepsNotification t = None \<longrightarrow> list_all (\<lambda>c. \<not> isDigit c) t"
    by (simp add: parseRepsNotification_None_iff)
  from a b c d e f show ?thesis by blast
qed

theorem parse_order_witness:
  "parseRepsNotification ''REPS: 12 of 15'' = Some 12
   \<and> parseRepsPoll ''REPS: 12 of 15'' = Some 12
   \<and> parseRepsNotification ''count 42!'' = Some 42
   \<and> parseRepsPoll ''count 42!'' = Some 42
   \<and> parseRepsNotification ''xyz'' = None \<and> parseRepsPoll ''xyz'' = None
   \<and> onNotification 3 10 (renderClosure 10 (render (initialSession 3))) ''xyz'' (render (initialSession 3))
       = (render (initialSession 3))\<lparr>bleLastText := Some ''xyz'', bleNotifyCount := 1\<rparr>
   \<and> onPollRead 3 10 (renderClosure 10 (render (initialSession 3))) ''xyz'' (render (initialSession 3))
       = (render (initialSession 3))\<lparr>bleLastText := Some ''xyz''\<rparr>
   \<and> parseRepsNotification ''REPS:9007199254740993'' = Some 9007199254740992
   \<and> parseRepsPoll ''REPS:9007199254740993'' = Some 9007199254740992
   \<and> parseRepsNotification (''REPS:'' @ replicate 309 (CHR ''9'')) = Some numberInfinity
   \<and> parseRepsPoll (''REPS:'' @ replicate 309 (CHR ''9'')) = None
   \<and> onPollRead 3 10 (renderClosure 10 (render (initialSession 3)))
        (''REPS:'' @ replicate 309 (CHR ''9'')) (render (initialSession 3))
       = (render (initialSession 3))\<lparr>bleLastText := Some (''REPS:'' @ replicate 309 (CHR ''9''))\<rparr>"
proof -
  let ?s = "render (initialSession 3)"
  let ?cl = "renderClosure 10 ?s"
  let ?big = "''REPS:'' @ replicate 309 (CHR ''9'')"
  have l1: "labelledCount ''REPS: 12 of 15'' ''12''"
    unfolding labelledCount_def
    by (rule exI [of _ "''REPS''"], rule exI [of _ "'': ''"], rule exI [of _ "'' of 15''"])
       (simp add: eqIgnoreCase_def isSeparator_def isWhiteSpace_def isDigit_def)
  have h1: "''REPS: 12 of 15'' = [] @ ''REPS: 12 of 15'' \<and> labelledCount ''REPS: 12 of 15'' ''12''
      \<and> (\<forall>p s d. ''REPS: 12 of 15'' = p @ s \<and> length p < length ([]::string) \<longrightarrow> \<not> labelledCount s d)"
    using l1 by simp
  have d1: "list_all isDigit ''12'' \<and> decimalValue ''12'' < 2 ^ 53" by code_simp
  have v1: "decimalValue ''12'' = 12" by code_simp
  have a1: "parseRepsNotification ''REPS: 12 of 15'' = Some (toNumber (decimalValue ''12''))
     \<and> parseRepsPoll ''REPS: 12 of 15'' = (if isFiniteNumber (toNumber (decimalValue ''12''))
                              then Some (toNumber (decimalValue ''12'')) else None)"
    using parse_order [of "''REPS: 12 of 15''" "[]" "''REPS: 12 of 15''" "''12''", THEN conjunct1] h1
    by (rule mp)
  have c1: "toNumber (decimalValue ''12'') = decimalValue ''12''
     \<and> isFiniteNumber (toNumber (decimalValue ''12''))"
    using parse_order [of _ _ _ "''12''", THEN conjunct2, THEN conjunct2, THEN conjunct1] d1
    by (rule mp)
  from a1 c1 v1
  have 1: "parseRepsNotification ''REPS: 12 of 15'' = Some 12
     \<and> parseRepsPoll ''REPS: 12 of 15'' = Some 12" by auto
  have m: "matchReps ''count 42!'' = None" by code_simp
  have fn: "firstNumber ''count 42!'' ''42''"
    unfolding firstNumber_def
    by (rule exI [of _ "''count ''"], rule exI [of _ "''!''"]) (simp add: isDigit_def)
  have h2: "(\<forall>p s d. ''count 42!'' = p @ s \<longrightarrow> \<not> labelledCount s d) \<and> firstNumber ''count 42!'' ''42''"
    using m fn unfolding matchReps_None_iff by blast
  have d2: "list_all isDigit ''42'' \<and> decimalValue ''42'' < 2 ^ 53" by code_simp
  have v2: "decimalValue ''42'' = 42" by code_simp
  have a2: "parseRepsNotification ''count 42!'' = Some (toNumber (decimalValue ''42''))
     \<and> parseRepsPoll ''count 42!'' = (if isFiniteNumber (toNumber (decimalValue ''42''))
                              then Some (toNumber (decimalValue ''42'')) else None)"
    using parse_order [of "''count 42!''" _ _ "''42''", THEN conjunct2, THEN conjunct1] h2
    by (rule mp)
  have c2: "toNumber (decimalValue ''42'') = decimalValue ''42''
     \<and> isFiniteNumber (toNumber (decimalValue ''42''))"
    using parse_order [of _ _ _ "''42''", THEN conjunct2, THEN conjunct2, THEN conjunct1] d2
    by (rule mp)
  from a2 c2 v2
  have 2: "parseRepsNotification ''count 42!'' = Some 42
     \<and> parseRepsPoll ''count 42!'' = Some 42" by auto
  have h3: "list_all (\<lambda>c. \<not> isDigit c) ''xyz''" by code_simp
  have bn: "bleNotifyCount ?s + 1 = 1" by code_simp
  have a3: "parseRepsNotification ''xyz'' = None \<and> parseRepsPoll ''xyz'' = None
         \<and> onNotification 3 10 ?cl ''xyz'' ?s
           = ?s\<lparr>bleLastText := Some ''xyz'', bleNotifyCount := bleNotifyCount ?s + 1\<rparr>
         \<and> onPollRead 3 10 ?cl ''xyz'' ?s = ?s\<lparr>bleLastText := Some ''xyz''\<rparr>
         \<and> bleLastError (onNotification 3 10 ?cl ''xyz'' ?s) = bleLastError ?s
         \<and> bleLastError (onPollRead 3 10 ?cl ''xyz'' ?s) = bleLastError ?s
         \<and> setRepsCompleted (onNotification 3 10 ?cl ''xyz'' ?s) = setRepsCompleted ?s
         \<and> setRepsCompleted (onPollRead 3 10 ?cl ''xyz'' ?s) = setRepsCompleted ?s
         \<and> currentSetIndex (onNotification 3 10 ?cl ''xyz'' ?s) = currentSetIndex ?s
         \<and> currentSetIndex (onPollRead 3 10 ?cl ''xyz'' ?s) = currentSetIndex ?s"
    using parse_order [of "''xyz''" _ _ _ 3 10 ?cl ?s,
        THEN conjunct2, THEN conjunct2, THEN conjunct2, THEN conjunct1] h3
    by (rule mp)
  have e3: "list_all (\<lambda>c. \<not> isDigit c) ''xyz''"
    using parse_order [of "''xyz''",
        THEN conjunct2, THEN conjunct2, THEN conjunct2, THEN conjunct2, THEN conjunct1]
      a3 [THEN conjunct1]
    by (rule mp)
  from a3 have 3: "parseRepsNotification ''xyz'' = None \<and> parseRepsPoll ''xyz'' = None
     \<and> onPollRead 3 10 ?cl ''xyz'' ?s = ?s\<lparr>bleLastText := Some ''xyz''\<rparr>" by blast
  from a3 have "onNotification 3 10 ?cl ''xyz'' ?s
           = ?s\<lparr>bleLastText := Some ''xyz'', bleNotifyCount := bleNotifyCount ?s + 1\<rparr>" by blast
  then have 4: "onNotification 3 10 ?cl ''xyz'' ?s
           = ?s\<lparr>bleLastText := Some ''xyz'', bleNotifyCount := 1\<rparr>" by (simp only: bn)
  have l5: "labelledCount ''REPS:9007199254740993'' ''9007199254740993''"
    unfolding labelledCount_def
    by (rule exI [of _ "''REPS''"], rule exI [of _ "'':''"], rule exI [of _ "[]"])
       (simp add: eqIgnoreCase_def isSeparator_def isWhiteSpace_def isDigit_def)
  have h5: "''REPS:9007199254740993'' = [] @ ''REPS:9007199254740993''
      \<and> labelledCount ''REPS:9007199254740993'' ''9007199254740993''
      \<and> (\<forall>p s d. ''REPS:9007199254740993'' = p @ s \<and> length p < length ([]::string)
           \<longrightarrow> \<not> labelledCount s d)"
    using l5 by simp
  have v5: "toNumber (decimalValue ''9007199254740993'') = 9007199254740992" by code_simp
  have f5: "isFiniteNumber 9007199254740992" by code_simp
  have a5: "parseRepsNotification ''REPS:9007199254740993''
       = Some (toNumber (decimalValue ''9007199254740993''))
     \<and> parseRepsPoll ''REPS:9007199254740993''
       = (if isFiniteNumber (toNumber (decimalValue ''9007199254740993''))
          then Some (toNumber (decimalValue ''9007199254740993'')) else None)"
    using parse_order [of "''REPS:9007199254740993''" "[]" "''REPS:9007199254740993''"
        "''9007199254740993''", THEN conjunct1] h5
    by (rule mp)
  from a5 f5
  have 5: "parseRepsNotification ''REPS:9007199254740993'' = Some 9007199254740992
     \<and> parseRepsPoll ''REPS:9007199254740993'' = Some 9007199254740992"
    by (simp only: v5 if_True)
  have l6: "labelledCount ?big (replicate 309 (CHR ''9''))"
    unfolding labelledCount_def
    by (rule exI [of _ "''REPS''"], rule exI [of _ "'':''"], rule exI [of _ "[]"])
       (simp add: eqIgnoreCase_def isSeparator_def isWhiteSpace_def isDigit_def list_all_iff)
  have h6: "?big = [] @ ?big \<and> labelledCount ?big (replicate 309 (CHR ''9''))
      \<and> (\<forall>p s d. ?big = p @ s \<and> length p < length ([]::string) \<longrightarrow> \<not> labelledCount s d)"
    using l6 by (simp only: append_Nil list.size not_less_zero simp_thms)
  have v6: "toNumber (decimalValue (replicate 309 (CHR ''9''))) = numberInfinity" by code_simp
  have f6: "\<not> isFiniteNumber numberInfinity" by (simp add: isFiniteNumber_def)
  have a6: "parseRepsNotification ?big = Some (toNumber (decimalValue (replicate 309 (CHR ''9''))))
     \<and> parseRepsPoll ?big = (if isFiniteNumber (toNumber (decimalValue (replicate 309 (CHR ''9''))))
          then Some (toNumber (decimalValue (replicate 309 (CHR ''9'')))) else None)"
    using parse_order [of ?big "[]" ?big "replicate 309 (CHR ''9'')", THEN conjunct1] h6
    by (rule mp)
  from a6 f6
  have 6: "parseRepsNotification ?big = Some numberInfinity \<and> parseRepsPoll ?big = None"
    by (simp only: v6 if_False)
  have 7: "onPollRead 3 10 ?cl ?big ?s = ?s\<lparr>bleLastText := Some ?big\<rparr>"
    using parse_order [of ?big _ _ _ 3 10 ?cl ?s,
        THEN conjunct2, THEN conjunct2, THEN conjunct2, THEN conjunct2, THEN conjunct2,
        THEN mp, OF 6 [THEN conjunct2]]
    by (rule conjunct1)
  from 1 2 3 4 5 6 7 show ?thesis by blast
qed
section \<open>Properties of the merge rule and of sample delivery\<close>

lemma mergeSample_delta_only:
  "mergeSample sets reps cl v s = mergeSampleDeltaOnly sets reps cl v s"
  by (simp add: mergeSample_def mergeSampleDeltaOnly_def Let_def)

lemma mergeSample_reps:
  "setRepsCompleted (mergeSample sets reps cl v s) =
     (if v - lastSensorRepRef s > 0 \<and> currentRepsRef s < reps \<and> \<not> showRestDrawerRef s
      then setRepsCompleted (incrementRepLoop sets reps cl
             (nat (min (v - lastSensorRepRef s) (reps - currentRepsRef s))) (s\<lparr>sensorReps := v\<rparr>))
      else setRepsCompleted s)"
  by (simp add: mergeSample_delta_only mergeSampleDeltaOnly_def Let_def)

lemma mergeSample_length:
  "length (setRepsCompleted (mergeSample sets reps cl v s)) = length (setRepsCompleted s)"
  by (simp add: mergeSample_reps incrementRepLoop_length)

lemma mergeSample_mono:
  "j < length (setRepsCompleted s) \<Longrightarrow>
   setRepsCompleted s ! j \<le> setRepsCompleted (mergeSample sets reps cl v s) ! j"
  using incrementRepLoop_mono [of j "s\<lparr>sensorReps := v\<rparr>" sets reps cl]
  by (simp add: mergeSample_reps)

lemma mergeSample_bound:
  "j < length (setRepsCompleted s) \<Longrightarrow> setRepsCompleted s ! j \<le> reps \<Longrightarrow>
   setRepsCompleted (mergeSample sets reps cl v s) ! j \<le> reps"
  using incrementRepLoop_bound [of j "s\<lparr>sensorReps := v\<rparr>" reps sets cl]
  by (simp add: mergeSample_reps)

lemma mergeSample_resting:
  "showRestDrawerRef s \<Longrightarrow> mergeSample sets reps cl v s = s\<lparr>sensorReps := v\<rparr>"
  by (simp add: mergeSample_def Let_def)

lemma mergeSample_exact:
  assumes "cl_currentSetIndex cl = currentSetIndex s" and "\<not> cl_isAllSetsComplete cl"
    and "currentSetIndex s < length (setRepsCompleted s)"
    and "currentRepsRef s = currentReps s"
  shows "setRepsCompleted (mergeSample sets reps cl v s) =
     (setRepsCompleted s)[currentSetIndex s := currentReps s +
        (if v - lastSensorRepRef s > 0 \<and> currentReps s < reps \<and> \<not> showRestDrawerRef s
         then min (v - lastSensorRepRef s) (reps - currentReps s) else 0)]"
proof (cases "v - lastSensorRepRef s > 0 \<and> currentReps s < reps \<and> \<not> showRestDrawerRef s")
  case True
  let ?m = "min (v - lastSensorRepRef s) (reps - currentReps s)"
  let ?s = "s\<lparr>sensorReps := v\<rparr>"
  have c: "currentReps s = setRepsCompleted s ! currentSetIndex s"
    using assms(3) by (simp add: currentReps_def)
  have m: "0 < ?m" using True by simp
  have "setRepsCompleted (incrementRepLoop sets reps cl (nat ?m) ?s)
      = (setRepsCompleted ?s)[cl_currentSetIndex cl := setRepsCompleted ?s ! cl_currentSetIndex cl + int (nat ?m)]"
    using assms m c by (intro incrementRepLoop_exact) simp_all
  then show ?thesis using True assms m c by (simp add: mergeSample_reps)
next
  case False
  have c: "currentReps s = setRepsCompleted s ! currentSetIndex s"
    using assms(3) by (simp add: currentReps_def)
  from False assms c show ?thesis by (auto simp add: mergeSample_reps)
qed

lemma render_fields:
  "setRepsCompleted (render s) = setRepsCompleted s
   \<and> currentSetIndex (render s) = currentSetIndex s
   \<and> showRestDrawer (render s) = showRestDrawer s
   \<and> showRestDrawerRef (render s) = showRestDrawer s
   \<and> currentRepsRef (render s) = currentReps s
   \<and> lastSensorRepRef (render s) = lastSensorRepRef s
   \<and> setRestTimes (render s) = setRestTimes s"
  by (simp add: render_def)

lemma deliver_reps:
  "setRepsCompleted (deliver sets reps cl s smp) =
     (case smp of
        Notification t \<Rightarrow> (case parseRepsNotification t of None \<Rightarrow> setRepsCompleted s
           | Some v \<Rightarrow> setRepsCompleted (mergeSample sets reps cl v
                         (s\<lparr>bleLastText := Some t, bleNotifyCount := bleNotifyCount s + 1\<rparr>)))
      | PollRead t \<Rightarrow> (case parseRepsPoll t of None \<Rightarrow> setRepsCompleted s
           | Some v \<Rightarrow> setRepsCompleted (mergeSample sets reps cl v (s\<lparr>bleLastText := Some t\<rparr>))))"
  by (cases smp) (simp_all add: deliver_def render_fields onNotification_def onPollRead_def Let_def split: option.splits)

lemma deliver_length:
  "length (setRepsCompleted (deliver sets reps cl s smp)) = length (setRepsCompleted s)"
  by (simp add: deliver_reps mergeSample_length split: sample.splits option.splits)

lemma deliver_mono:
  assumes "j < length (setRepsCompleted s)"
  shows "setRepsCompleted s ! j \<le> setRepsCompleted (deliver sets reps cl s smp) ! j"
proof (cases smp)
  case (Notification t)
  show ?thesis
    using assms mergeSample_mono [of j "s\<lparr>bleLastText := Some t, bleNotifyCount := bleNotifyCount s + 1\<rparr>" sets reps cl]
    by (simp add: deliver_reps Notification split: option.splits)
next
  case (PollRead t)
  show ?thesis
    using assms mergeSample_mono [of j "s\<lparr>bleLastText := Some t\<rparr>" sets reps cl]
    by (simp add: deliver_reps PollRead split: option.splits)
qed

lemma deliver_bound:
  assumes "j < length (setRepsCompleted s)" and "setRepsCompleted s ! j \<le> reps"
  shows "setRepsCompleted (deliver sets reps cl s smp) ! j \<le> reps"
proof (cases smp)
  case (Notification t)
  show ?thesis
    using assms mergeSample_bound [of j "s\<lparr>bleLastText := Some t, bleNotifyCount := bleNotifyCount s + 1\<rparr>" reps sets cl]
    by (simp add: deliver_reps Notification split: option.splits)
next
  case (PollRead t)
  show ?thesis
    using assms mergeSample_bound [of j "s\<lparr>bleLastText := Some t\<rparr>" reps sets cl]
    by (simp add: deliver_reps PollRead split: option.splits)
qed

lemma deliver_resting:
  assumes "showRestDrawerRef s"
  shows "setRepsCompleted (deliver sets reps cl s smp) = setRepsCompleted s
     \<and> showRestDrawer (deliver sets reps cl s smp) = showRestDrawer s"
  using assms
  by (cases smp)
     (simp_all add: deliver_def render_def onNotification_def onPollRead_def Let_def mergeSample_resting
        split: option.splits)

lemma deliverAll_length:
  "length (setRepsCompleted (deliverAll sets reps cl s smps)) = length (setRepsCompleted s)"
  unfolding deliverAll_def
  by (induction smps arbitrary: s) (simp_all add: deliver_length)

lemma deliverAll_mono:
  "j < length (setRepsCompleted s) \<Longrightarrow>
   setRepsCompleted s ! j \<le> setRepsCompleted (deliverAll sets reps cl s smps) ! j"
  unfolding deliverAll_def
proof (induction smps arbitrary: s)
  case Nil
  then show ?case by simp
next
  case (Cons a smps)
  have "setRepsCompleted s ! j \<le> setRepsCompleted (deliver sets reps cl s a) ! j"
    using Cons.prems by (rule deliver_mono)
  also have "\<dots> \<le> setRepsCompleted (foldl (deliver sets reps cl) (deliver sets reps cl s a) smps) ! j"
    using Cons.prems by (intro Cons.IH) (simp add: deliver_length)
  finally show ?case by simp
qed

lemma deliverAll_bound:
  "j < length (setRepsCompleted s) \<Longrightarrow> setRepsCompleted s ! j \<le> reps \<Longrightarrow>
   setRepsCompleted (deliverAll sets reps cl s smps) ! j \<le> reps"
  unfolding deliverAll_def
proof (induction smps arbitrary: s)
  case Nil
  then show ?case by simp
next
  case (Cons a smps)
  have "setRepsCompleted (foldl (deliver sets reps cl) (deliver sets reps cl s a) smps) ! j \<le> reps"
    using Cons.prems by (intro Cons.IH) (simp_all add: deliver_length deliver_bound)
  then show ?case by simp
qed

lemma deliverAll_resting:
  "showRestDrawer s \<Longrightarrow> showRestDrawerRef s \<Longrightarrow>
   setRepsCompleted (deliverAll sets reps cl s smps) = setRepsCompleted s"
  unfolding deliverAll_def
proof (induction smps arbitrary: s)
  case Nil
  then show ?case by simp
next
  case (Cons a smps)
  let ?s1 = "deliver sets reps cl s a"
  have 1: "setRepsCompleted ?s1 = setRepsCompleted s \<and> showRestDrawer ?s1 = showRestDrawer s"
    using Cons.prems(2) by (rule deliver_resting)
  have 2: "showRestDrawerRef ?s1 = showRestDrawer ?s1"
    by (simp add: deliver_def render_def)
  from Cons.IH [of ?s1] 1 2 Cons.prems show ?case by simp
qed

section \<open>The frame of incrementRep\<close>

text \<open>
  C10: \<open>incrementRep\<close> changes at most the entry of \<open>setRepsCompleted\<close> at the
  \<open>currentSetIndex\<close> it captured, and that only by adding exactly 1 when the entry is
  below \<open>reps\<close>; every other entry, the length, \<open>setRestTimes\<close> and
  \<open>currentSetIndex\<close> are as before; called when all sets are complete (the captured
  \<open>isAllSetsComplete\<close>, which for the button is the one of the current state) it returns
  the session unchanged.
\<close>

theorem incrementRep_frame:
  "setRepsCompleted (incrementRep sets reps cl s) =
     (if \<not> cl_isAllSetsComplete cl \<and> cl_currentSetIndex cl < length (setRepsCompleted s)
         \<and> setRepsCompleted s ! cl_currentSetIndex cl < reps
      then (setRepsCompleted s)[cl_currentSetIndex cl := setRepsCompleted s ! cl_currentSetIndex cl + 1]
      else setRepsCompleted s)
   \<and> (\<forall>j. j \<noteq> cl_currentSetIndex cl \<longrightarrow>
         setRepsCompleted (incrementRep sets reps cl s) ! j = setRepsCompleted s ! j)
   \<and> length (setRepsCompleted (incrementRep sets reps cl s)) = length (setRepsCompleted s)
   \<and> setRestTimes (incrementRep sets reps cl s) = setRestTimes s
   \<and> currentSetIndex (incrementRep sets reps cl s) = currentSetIndex s
   \<and> (cl_isAllSetsComplete cl \<longrightarrow> incrementRep sets reps cl s = s)
   \<and> cl_currentSetIndex (renderClosure reps s) = currentSetIndex s
   \<and> (isAllSetsComplete reps s \<longrightarrow> incrementRep sets reps (renderClosure reps s) s = s)"
proof -
  let ?s' = "incrementRep sets reps cl s"
  have a: "setRepsCompleted ?s' =
     (if \<not> cl_isAllSetsComplete cl \<and> cl_currentSetIndex cl < length (setRepsCompleted s)
         \<and> setRepsCompleted s ! cl_currentSetIndex cl < reps
      then (setRepsCompleted s)[cl_currentSetIndex cl := setRepsCompleted s ! cl_currentSetIndex cl + 1]
      else setRepsCompleted s)"
    by (simp add: incrementRep_reps bumpRep_def)
  have b: "\<forall>j. j \<noteq> cl_currentSetIndex cl \<longrightarrow> setRepsCompleted ?s' ! j = setRepsCompleted s ! j"
    by (simp add: incrementRep_reps bumpRep_nth_other)
  have c: "length (setRepsCompleted ?s') = length (setRepsCompleted s)"
    by (simp add: incrementRep_reps length_bumpRep)
  have d: "setRestTimes ?s' = setRestTimes s \<and> currentSetIndex ?s' = currentSetIndex s"
    by (simp add: incrementRep_frame_fields)
  have e: "cl_isAllSetsComplete cl \<longrightarrow> ?s' = s"
    by (simp add: incrementRep_complete)
  have f: "cl_currentSetIndex (renderClosure reps s) = currentSetIndex s"
    by (simp add: renderClosure_def)
  have g: "isAllSetsComplete reps s \<longrightarrow> incrementRep sets reps (renderClosure reps s) s = s"
    by (simp add: incrementRep_complete renderClosure_def)
  from a b c d e f g show ?thesis by blast
qed

theorem incrementRep_frame_witness:
  "setRepsCompleted (incrementRep 3 10 (renderClosure 10 \<lparr>currentSetIndex = 1,
      setRepsCompleted = [10, 4, 0], setRepsCompletedRef = 14,
      setRestTimes = [30, 0, 0], setRestTimesRef = 1,
      showRestDrawer = False, restTimer = 30, sensorReps = 4,
      bleLastText = None, bleNotifyCount = 0, bleLastError = None,
      lastSensorRepRef = 4, currentRepsRef = 4, showRestDrawerRef = False\<rparr>) \<lparr>currentSetIndex = 1,
      setRepsCompleted = [10, 4, 0], setRepsCompletedRef = 14,
      setRestTimes = [30, 0, 0], setRestTimesRef = 1,
      showRestDrawer = False, restTimer = 30, sensorReps = 4,
      bleLastText = None, bleNotifyCount = 0, bleLastError = None,
      lastSensorRepRef = 4, currentRepsRef = 4, showRestDrawerRef = False\<rparr>) = [10, 5, 0]
   \<and> isAllSetsComplete 10 ((initialSession 2)\<lparr>setRepsCompleted := [10, 10]\<rparr>)
   \<and> incrementRep 2 10 (renderClosure 10 ((initialSession 2)\<lparr>setRepsCompleted := [10, 10]\<rparr>))
        ((initialSession 2)\<lparr>setRepsCompleted := [10, 10]\<rparr>)
      = (initialSession 2)\<lparr>setRepsCompleted := [10, 10]\<rparr>"
proof -
  let ?s = "\<lparr>currentSetIndex = 1,
      setRepsCompleted = [10, 4, 0], setRepsCompletedRef = 14,
      setRestTimes = [30, 0, 0], setRestTimesRef = 1,
      showRestDrawer = False, restTimer = 30, sensorReps = 4,
      bleLastText = None, bleNotifyCount = 0, bleLastError = None,
      lastSensorRepRef = 4, currentRepsRef = 4, showRestDrawerRef = False\<rparr>"
  let ?c = "(initialSession 2)\<lparr>setRepsCompleted := [10, 10]\<rparr>"
  have 1: "\<not> cl_isAllSetsComplete (renderClosure 10 ?s)" by code_simp
  have 2: "cl_currentSetIndex (renderClosure 10 ?s) = 1" by code_simp
  have 3: "isAllSetsComplete 10 ?c" by code_simp
  from incrementRep_frame [of 3 10 "renderClosure 10 ?s" ?s] 1 2
  have 4: "setRepsCompleted (incrementRep 3 10 (renderClosure 10 ?s) ?s) = [10, 5, 0]" by simp
  from incrementRep_frame [of 2 10 "renderClosure 10 ?c" ?c] 3
  have 5: "incrementRep 2 10 (renderClosure 10 ?c) ?c = ?c" by blast
  from 3 4 5 show ?thesis by blast
qed

section \<open>The first-rep branch of the merge rule\<close>

text \<open>
  C9: the merge rule equals the rule with only its delta branch, for every counter, every
  session and every captured \<open>incrementRep\<close>: the condition of the first-rep branch
  cannot hold once the delta branch has not fired, because a baseline of 0 and a positive
  counter make the delta positive. So the first sample \<open>v > 0\<close> of a fresh set (baseline
  0, not resting, refs as the render left them, the callback holding the
  \<open>incrementRep\<close> of this set) adds \<open>min v (reps - currentReps)\<close> reps, not 1.
\<close>

theorem first_rep_branch_unreachable:
  "mergeSample sets reps cl v s = mergeSampleDeltaOnly sets reps cl v s
   \<and> \<not> (\<not> (v - lastSensorRepRef s > 0 \<and> currentRepsRef s < reps \<and> \<not> showRestDrawerRef s)
         \<and> v > 0 \<and> lastSensorRepRef s = 0 \<and> currentRepsRef s < reps \<and> \<not> showRestDrawerRef s)
   \<and> (lastSensorRepRef s = 0 \<and> v > 0 \<and> \<not> showRestDrawerRef s \<and> currentReps s < reps
        \<and> currentRepsRef s = currentReps s \<and> currentSetIndex s < length (setRepsCompleted s)
        \<and> cl_currentSetIndex cl = currentSetIndex s \<and> \<not> cl_isAllSetsComplete cl
       \<longrightarrow> setRepsCompleted (mergeSample sets reps cl v s)
             = (setRepsCompleted s)[currentSetIndex s := currentReps s + min v (reps - currentReps s)])"
proof -
  have a: "mergeSample sets reps cl v s = mergeSampleDeltaOnly sets reps cl v s"
    by (rule mergeSample_delta_only)
  have b: "\<not> (\<not> (v - lastSensorRepRef s > 0 \<and> currentRepsRef s < reps \<and> \<not> showRestDrawerRef s)
         \<and> v > 0 \<and> lastSensorRepRef s = 0 \<and> currentRepsRef s < reps \<and> \<not> showRestDrawerRef s)"
    by auto
  have c: "lastSensorRepRef s = 0 \<and> v > 0 \<and> \<not> showRestDrawerRef s \<and> currentReps s < reps
        \<and> currentRepsRef s = currentReps s \<and> currentSetIndex s < length (setRepsCompleted s)
        \<and> cl_currentSetIndex cl = currentSetIndex s \<and> \<not> cl_isAllSetsComplete cl
       \<longrightarrow> setRepsCompleted (mergeSample sets reps cl v s)
             = (setRepsCompleted s)[currentSetIndex s := currentReps s + min v (reps - currentReps s)]"
  proof
    assume h: "lastSensorRepRef s = 0 \<and> v > 0 \<and> \<not> showRestDrawerRef s \<and> currentReps s < reps
        \<and> currentRepsRef s = currentReps s \<and> currentSetIndex s < length (setRepsCompleted s)
        \<and> cl_currentSetIndex cl = currentSetIndex s \<and> \<not> cl_isAllSetsComplete cl"
    then have "setRepsCompleted (mergeSample sets reps cl v s) =
     (setRepsCompleted s)[currentSetIndex s := currentReps s +
        (if v - lastSensorRepRef s > 0 \<and> currentReps s < reps \<and> \<not> showRestDrawerRef s
         then min (v - lastSensorRepRef s) (reps - currentReps s) else 0)]"
      by (intro mergeSample_exact) simp_all
    with h show "setRepsCompleted (mergeSample sets reps cl v s)
             = (setRepsCompleted s)[currentSetIndex s := currentReps s + min v (reps - currentReps s)]"
      by simp
  qed
  from a b c show ?thesis by blast
qed

theorem first_rep_branch_unreachable_witness:
  "setRepsCompleted (mergeSample 3 10 (renderClosure 10 (render (initialSession 3))) 4
      (render (initialSession 3))) = [4, 0, 0]"
proof -
  let ?s = "render (initialSession 3)"
  let ?cl = "renderClosure 10 ?s"
  have h: "lastSensorRepRef ?s = 0 \<and> (4::int) > 0 \<and> \<not> showRestDrawerRef ?s \<and> currentReps ?s < 10
        \<and> currentRepsRef ?s = currentReps ?s \<and> currentSetIndex ?s < length (setRepsCompleted ?s)
        \<and> cl_currentSetIndex ?cl = currentSetIndex ?s \<and> \<not> cl_isAllSetsComplete ?cl"
    by code_simp
  have e: "(setRepsCompleted ?s)[currentSetIndex ?s := currentReps ?s + min 4 (10 - currentReps ?s)] = [4, 0, 0]"
    by code_simp
  from first_rep_branch_unreachable [of 3 10 ?cl 4 ?s] h
  have "setRepsCompleted (mergeSample 3 10 ?cl 4 ?s)
      = (setRepsCompleted ?s)[currentSetIndex ?s := currentReps ?s + min 4 (10 - currentReps ?s)]"
    by blast
  with e show ?thesis by simp
qed

section \<open>The clamp of sensor-driven reps\<close>

lemma deliver_Notification_exact:
  assumes "cl_currentSetIndex cl = currentSetIndex s" and "\<not> cl_isAllSetsComplete cl"
    and "currentSetIndex s < length (setRepsCompleted s)"
    and "currentRepsRef s = currentReps s"
    and "parseRepsNotification t = Some v"
  shows "setRepsCompleted (deliver sets reps cl s (Notification t)) =
     (setRepsCompleted s)[currentSetIndex s := currentReps s +
        (if v - lastSensorRepRef s > 0 \<and> currentReps s < reps \<and> \<not> showRestDrawerRef s
         then min (v - lastSensorRepRef s) (reps - currentReps s) else 0)]"
proof -
  let ?s1 = "s\<lparr>bleLastText := Some t, bleNotifyCount := bleNotifyCount s + 1\<rparr>"
  have c: "currentReps ?s1 = currentReps s" by (simp add: currentReps_def)
  have "setRepsCompleted (mergeSample sets reps cl v ?s1) =
     (setRepsCompleted ?s1)[currentSetIndex ?s1 := currentReps ?s1 +
        (if v - lastSensorRepRef ?s1 > 0 \<and> currentReps ?s1 < reps \<and> \<not> showRestDrawerRef ?s1
         then min (v - lastSensorRepRef ?s1) (reps - currentReps ?s1) else 0)]"
    using assms c by (intro mergeSample_exact) simp_all
  then show ?thesis using assms(5) c
    by (simp add: deliver_reps)
qed

lemma deliver_PollRead_exact:
  assumes "cl_currentSetIndex cl = currentSetIndex s" and "\<not> cl_isAllSetsComplete cl"
    and "currentSetIndex s < length (setRepsCompleted s)"
    and "currentRepsRef s = currentReps s"
    and "parseRepsPoll t = Some v"
  shows "setRepsCompleted (deliver sets reps cl s (PollRead t)) =
     (setRepsCompleted s)[currentSetIndex s := currentReps s +
        (if v - lastSensorRepRef s > 0 \<and> currentReps s < reps \<and> \<not> showRestDrawerRef s
         then min (v - lastSensorRepRef s) (reps - currentReps s) else 0)]"
proof -
  let ?s1 = "s\<lparr>bleLastText := Some t\<rparr>"
  have c: "currentReps ?s1 = currentReps s" by (simp add: currentReps_def)
  have "setRepsCompleted (mergeSample sets reps cl v ?s1) =
     (setRepsCompleted ?s1)[currentSetIndex ?s1 := currentReps ?s1 +
        (if v - lastSensorRepRef ?s1 > 0 \<and> currentReps ?s1 < reps \<and> \<not> showRestDrawerRef ?s1
         then min (v - lastSensorRepRef ?s1) (reps - currentReps ?s1) else 0)]"
    using assms c by (intro mergeSample_exact) simp_all
  then show ?thesis using assms(5) c
    by (simp add: deliver_reps)
qed

text \<open>
  C1: for every sequence of samples (notifications and poll reads, in any order) handled
  by one subscription, every entry of \<open>setRepsCompleted\<close> that started at most at
  \<open>reps\<close> grows by at least 0 and at most \<open>reps\<close> minus its starting value, and the
  number of sets does not change; a sample handled while the rest period is active (the
  ref the callback reads) adds nothing, and neither does a whole sequence started in the
  rest period; and a sample whose text parses to \<open>v\<close>, handled by the callback of the
  current set with the refs as the render left them, adds to the current set exactly
  \<open>min (v - last) (reps - currentReps)\<close> when \<open>v - last > 0\<close>, \<open>currentReps < reps\<close> and
  not resting, and nothing otherwise, where \<open>last\<close> is \<open>lastSensorRepRef\<close>.
\<close>

theorem sensor_samples_clamped:
  "(\<forall>j. j < length (setRepsCompleted s) \<and> setRepsCompleted s ! j \<le> reps \<longrightarrow>
        0 \<le> setRepsCompleted (deliverAll sets reps cl s smps) ! j - setRepsCompleted s ! j
      \<and> setRepsCompleted (deliverAll sets reps cl s smps) ! j - setRepsCompleted s ! j
          \<le> reps - setRepsCompleted s ! j)
   \<and> length (setRepsCompleted (deliverAll sets reps cl s smps)) = length (setRepsCompleted s)
   \<and> (showRestDrawerRef s \<longrightarrow> setRepsCompleted (deliver sets reps cl s smp) = setRepsCompleted s)
   \<and> (showRestDrawer s \<and> showRestDrawerRef s \<longrightarrow>
        setRepsCompleted (deliverAll sets reps cl s smps) = setRepsCompleted s)
   \<and> (cl_currentSetIndex cl = currentSetIndex s \<and> \<not> cl_isAllSetsComplete cl
        \<and> currentSetIndex s < length (setRepsCompleted s) \<and> currentRepsRef s = currentReps s
        \<and> parseRepsNotification t = Some v \<longrightarrow>
        setRepsCompleted (deliver sets reps cl s (Notification t)) =
          (setRepsCompleted s)[currentSetIndex s := currentReps s +
            (if v - lastSensorRepRef s > 0 \<and> currentReps s < reps \<and> \<not> showRestDrawerRef s
             then min (v - lastSensorRepRef s) (reps - currentReps s) else 0)])
   \<and> (cl_currentSetIndex cl = currentSetIndex s \<and> \<not> cl_isAllSetsComplete cl
        \<and> currentSetIndex s < length (setRepsCompleted s) \<and> currentRepsRef s = currentReps s
        \<and> parseRepsPoll t = Some v \<longrightarrow>
        setRepsCompleted (deliver sets reps cl s (PollRead t)) =
          (setRepsCompleted s)[currentSetIndex s := currentReps s +
            (if v - lastSensorRepRef s > 0 \<and> currentReps s < reps \<and> \<not> showRestDrawerRef s
             then min (v - lastSensorRepRef s) (reps - currentReps s) else 0)])"
proof -
  let ?xs' = "setRepsCompleted (deliverAll sets reps cl s smps)"
  have a: "\<forall>j. j < length (setRepsCompleted s) \<and> setRepsCompleted s ! j \<le> reps \<longrightarrow>
        0 \<le> ?xs' ! j - setRepsCompleted s ! j
      \<and> ?xs' ! j - setRepsCompleted s ! j \<le> reps - setRepsCompleted s ! j"
  proof (intro allI impI)
    fix j
    assume h: "j < length (setRepsCompleted s) \<and> setRepsCompleted s ! j \<le> reps"
    have 1: "setRepsCompleted s ! j \<le> ?xs' ! j" using h by (intro deliverAll_mono) simp
    have 2: "?xs' ! j \<le> reps" using h by (intro deliverAll_bound) simp_all
    from 1 2 show "0 \<le> ?xs' ! j - setRepsCompleted s ! j
      \<and> ?xs' ! j - setRepsCompleted s ! j \<le> reps - setRepsCompleted s ! j" by simp
  qed
  have b: "length ?xs' = length (setRepsCompleted s)" by (rule deliverAll_length)
  have c: "showRestDrawerRef s \<longrightarrow> setRepsCompleted (deliver sets reps cl s smp) = setRepsCompleted s"
    using deliver_resting [of s sets reps cl smp] by blast
  have d: "showRestDrawer s \<and> showRestDrawerRef s \<longrightarrow> ?xs' = setRepsCompleted s"
    using deliverAll_resting [of s sets reps cl smps] by blast
  have e: "cl_currentSetIndex cl = currentSetIndex s \<and> \<not> cl_isAllSetsComplete cl
        \<and> currentSetIndex s < length (setRepsCompleted s) \<and> currentRepsRef s = currentReps s
        \<and> parseRepsNotification t = Some v \<longrightarrow>
        setRepsCompleted (deliver sets reps cl s (Notification t)) =
          (setRepsCompleted s)[currentSetIndex s := currentReps s +
            (if v - lastSensorRepRef s > 0 \<and> currentReps s < reps \<and> \<not> showRestDrawerRef s
             then min (v - lastSensorRepRef s) (reps - currentReps s) else 0)]"
    using deliver_Notification_exact [of cl s t v sets reps] by blast
  have f: "cl_currentSetIndex cl = currentSetIndex s \<and> \<not> cl_isAllSetsComplete cl
        \<and> currentSetIndex s < length (setRepsCompleted s) \<and> currentRepsRef s = currentReps s
        \<and> parseRepsPoll t = Some v \<longrightarrow>
        setRepsCompleted (deliver sets reps cl s (PollRead t)) =
          (setRepsCompleted s)[currentSetIndex s := currentReps s +
            (if v - lastSensorRepRef s > 0 \<and> currentReps s < reps \<and> \<not> showRestDrawerRef s
             then min (v - lastSensorRepRef s) (reps - currentReps s) else 0)]"
    using deliver_PollRead_exact [of cl s t v sets reps] by blast
  from a b c d e f show ?thesis by blast
qed

theorem sensor_samples_clamped_witness:
  "setRepsCompleted (deliverAll 3 10 (renderClosure 10 (render (initialSession 3)))
       (render (initialSession 3))
       [Notification ''REPS:4'', PollRead ''REPS:4'', Notification ''7 reps'', PollRead ''REPS: 25'']) ! 0
     - setRepsCompleted (render (initialSession 3)) ! 0
     \<le> 10 - setRepsCompleted (render (initialSession 3)) ! 0
   \<and> setRepsCompleted (deliver 3 10 (renderClosure 10 (render (initialSession 3)))
       (render (initialSession 3)) (Notification ''REPS:4'')) = [4, 0, 0]
   \<and> setRepsCompleted (deliver 3 10 (renderClosure 10 (render (initialSession 3)))
       (render (initialSession 3)) (PollRead ''REPS: 25'')) = [10, 0, 0]
   \<and> setRepsCompleted (deliverAll 3 10 (renderClosure 10 (render (initialSession 3)))
       (render ((initialSession 3)\<lparr>setRepsCompleted := [10, 0, 0], showRestDrawer := True\<rparr>))
       [Notification ''REPS:4'', PollRead ''REPS:5'']) = [10, 0, 0]"
proof -
  let ?s = "render (initialSession 3)"
  let ?cl = "renderClosure 10 ?s"
  let ?r = "render ((initialSession 3)\<lparr>setRepsCompleted := [10, 0, 0], showRestDrawer := True\<rparr>)"
  let ?smps = "[Notification ''REPS:4'', PollRead ''REPS:4'', Notification ''7 reps'', PollRead ''REPS: 25'']"
  have h1: "0 < length (setRepsCompleted ?s) \<and> setRepsCompleted ?s ! 0 \<le> 10" by code_simp
  have h2: "cl_currentSetIndex ?cl = currentSetIndex ?s \<and> \<not> cl_isAllSetsComplete ?cl
        \<and> currentSetIndex ?s < length (setRepsCompleted ?s) \<and> currentRepsRef ?s = currentReps ?s"
    by code_simp
  have p1: "parseRepsNotification ''REPS:4'' = Some 4" by code_simp
  have p2: "parseRepsPoll ''REPS: 25'' = Some 25" by code_simp
  have e1: "(setRepsCompleted ?s)[currentSetIndex ?s := currentReps ?s +
            (if 4 - lastSensorRepRef ?s > 0 \<and> currentReps ?s < 10 \<and> \<not> showRestDrawerRef ?s
             then min (4 - lastSensorRepRef ?s) (10 - currentReps ?s) else 0)] = [4, 0, 0]"
    by code_simp
  have e2: "(setRepsCompleted ?s)[currentSetIndex ?s := currentReps ?s +
            (if 25 - lastSensorRepRef ?s > 0 \<and> currentReps ?s < 10 \<and> \<not> showRestDrawerRef ?s
             then min (25 - lastSensorRepRef ?s) (10 - currentReps ?s) else 0)] = [10, 0, 0]"
    by code_simp
  have h3: "showRestDrawer ?r \<and> showRestDrawerRef ?r" by code_simp
  have e3: "setRepsCompleted ?r = [10, 0, 0]" by code_simp
  note t1 = sensor_samples_clamped [where s = ?s and reps = 10 and sets = 3 and cl = ?cl
      and smps = ?smps and t = "''REPS:4''" and v = 4]
  note t2 = sensor_samples_clamped [where s = ?s and reps = 10 and sets = 3 and cl = ?cl
      and t = "''REPS: 25''" and v = 25]
  note t3 = sensor_samples_clamped [where s = ?r and reps = 10 and sets = 3 and cl = ?cl
      and smps = "[Notification ''REPS:4'', PollRead ''REPS:5'']"]
  from t1 h1 have 1: "setRepsCompleted (deliverAll 3 10 ?cl ?s ?smps) ! 0 - setRepsCompleted ?s ! 0
     \<le> 10 - setRepsCompleted ?s ! 0" by blast
  from t1 h2 p1 have "setRepsCompleted (deliver 3 10 ?cl ?s (Notification ''REPS:4'')) =
     (setRepsCompleted ?s)[currentSetIndex ?s := currentReps ?s +
            (if 4 - lastSensorRepRef ?s > 0 \<and> currentReps ?s < 10 \<and> \<not> showRestDrawerRef ?s
             then min (4 - lastSensorRepRef ?s) (10 - currentReps ?s) else 0)]" by blast
  with e1 have 2: "setRepsCompleted (deliver 3 10 ?cl ?s (Notification ''REPS:4'')) = [4, 0, 0]" by simp
  from t2 h2 p2 have "setRepsCompleted (deliver 3 10 ?cl ?s (PollRead ''REPS: 25'')) =
     (setRepsCompleted ?s)[currentSetIndex ?s := currentReps ?s +
            (if 25 - lastSensorRepRef ?s > 0 \<and> currentReps ?s < 10 \<and> \<not> showRestDrawerRef ?s
             then min (25 - lastSensorRepRef ?s) (10 - currentReps ?s) else 0)]" by blast
  with e2 have 3: "setRepsCompleted (deliver 3 10 ?cl ?s (PollRead ''REPS: 25'')) = [10, 0, 0]" by simp
  from t3 h3 have "setRepsCompleted (deliverAll 3 10 ?cl ?r [Notification ''REPS:4'', PollRead ''REPS:5''])
      = setRepsCompleted ?r" by blast
  with e3 have 4: "setRepsCompleted (deliverAll 3 10 ?cl ?r [Notification ''REPS:4'', PollRead ''REPS:5''])
      = [10, 0, 0]" by simp
  from 1 2 3 4 show ?thesis by blast
qed

section \<open>Counting a set from the sensor\<close>

lemma incrementRepLoop_no_rest:
  "cl_currentReps cl + 1 < reps \<Longrightarrow>
   showRestDrawer (incrementRepLoop sets reps cl n s) = showRestDrawer s
   \<and> lastSensorRepRef (incrementRepLoop sets reps cl n s) = lastSensorRepRef s
   \<and> sensorReps (incrementRepLoop sets reps cl n s) = sensorReps s"
  by (induction n arbitrary: s) (simp_all add: incrementRep_def Let_def)

lemma counting_add:
  assumes cl: "cl_currentSetIndex cl = 0" "\<not> cl_isAllSetsComplete cl" "cl_currentReps cl + 1 < reps"
    and s: "counting k l s"
    and p: "parseRepsNotification t = Some v"
    and c: "l < v" "k < reps"
  shows "counting (k + min (v - l) (reps - k)) v (deliver sets reps cl s (Notification t))
       \<and> setRepsCompleted (deliver sets reps cl s (Notification t))
           = (setRepsCompleted s)[0 := k + min (v - l) (reps - k)]"
proof -
  let ?s1 = "s\<lparr>bleLastText := Some t, bleNotifyCount := bleNotifyCount s + 1\<rparr>"
  let ?s2 = "?s1\<lparr>sensorReps := v\<rparr>"
  let ?m = "mergeSample sets reps cl v ?s1"
  let ?n = "nat (min (v - l) (reps - k))"
  let ?lp = "incrementRepLoop sets reps cl ?n ?s2"
  have f: "currentSetIndex s = 0" "0 < length (setRepsCompleted s)" "currentRepsRef s = k"
    "lastSensorRepRef s = l" "\<not> showRestDrawer s" "\<not> showRestDrawerRef s" "setRepsCompleted s ! 0 = k"
    using s by (simp_all add: counting_def)
  have d: "deliver sets reps cl s (Notification t) = render ?m"
    using p by (simp add: deliver_def onNotification_def)
  have m: "?m = ?lp\<lparr>lastSensorRepRef := v\<rparr>"
    using c f by (simp add: mergeSample_def Let_def)
  have e: "setRepsCompleted ?lp = (setRepsCompleted s)[0 := k + min (v - l) (reps - k)]"
    using incrementRepLoop_exact [of cl ?s2 ?n reps sets] cl f c by simp
  have nr: "showRestDrawer ?lp = False \<and> currentSetIndex ?lp = 0"
    using incrementRepLoop_no_rest [of cl reps sets ?n ?s2] incrementRepLoop_frame_fields [of sets reps cl ?n ?s2] cl f
    by simp
  from d m e nr f show ?thesis
    by (simp add: counting_def render_def currentReps_def)
qed

lemma counting_skip:
  assumes s: "counting k l s"
    and p: "parseRepsNotification t = Some v"
    and c: "v \<le> l \<or> reps \<le> k"
  shows "counting k l (deliver sets reps cl s (Notification t))
       \<and> setRepsCompleted (deliver sets reps cl s (Notification t)) = setRepsCompleted s"
proof -
  let ?s1 = "s\<lparr>bleLastText := Some t, bleNotifyCount := bleNotifyCount s + 1\<rparr>"
  let ?s2 = "?s1\<lparr>sensorReps := v\<rparr>"
  let ?m = "mergeSample sets reps cl v ?s1"
  have f: "currentSetIndex s = 0" "0 < length (setRepsCompleted s)" "currentRepsRef s = k"
    "lastSensorRepRef s = l" "\<not> showRestDrawer s" "\<not> showRestDrawerRef s" "setRepsCompleted s ! 0 = k"
    using s by (simp_all add: counting_def)
  have d: "deliver sets reps cl s (Notification t) = render ?m"
    using p by (simp add: deliver_def onNotification_def)
  have m: "?m = ?s2"
    using c f by (auto simp add: mergeSample_def Let_def)
  from d m f show ?thesis
    by (simp add: counting_def render_def currentReps_def)
qed

text \<open>
  C4: with \<open>reps = 10\<close>, any number of sets, and the subscription made at the mount of
  the screen, the counter values 0, 1, ..., 10 delivered as separate notifications leave
  the first set with 10 completed reps (and every other set with 0), and the further
  samples 11 and 12 change no entry.
\<close>

theorem counter_sequence_to_ten:
  assumes "1 \<le> sets"
  shows "setRepsCompleted (deliverAll sets 10 (renderClosure 10 (render (initialSession sets)))
            (render (initialSession sets))
            (map Notification
              [''REPS:0'', ''REPS:1'', ''REPS:2'', ''REPS:3'', ''REPS:4'', ''REPS:5'',
               ''REPS:6'', ''REPS:7'', ''REPS:8'', ''REPS:9'', ''REPS:10'']))
          = (replicate (nat sets) 0)[0 := 10]
       \<and> currentReps (deliverAll sets 10 (renderClosure 10 (render (initialSession sets)))
            (render (initialSession sets))
            (map Notification
              [''REPS:0'', ''REPS:1'', ''REPS:2'', ''REPS:3'', ''REPS:4'', ''REPS:5'',
               ''REPS:6'', ''REPS:7'', ''REPS:8'', ''REPS:9'', ''REPS:10''])) = 10
       \<and> setRepsCompleted (deliverAll sets 10 (renderClosure 10 (render (initialSession sets)))
            (render (initialSession sets))
            (map Notification
              [''REPS:0'', ''REPS:1'', ''REPS:2'', ''REPS:3'', ''REPS:4'', ''REPS:5'',
               ''REPS:6'', ''REPS:7'', ''REPS:8'', ''REPS:9'', ''REPS:10'', ''REPS:11'']))
          = (replicate (nat sets) 0)[0 := 10]
       \<and> setRepsCompleted (deliverAll sets 10 (renderClosure 10 (render (initialSession sets)))
            (render (initialSession sets))
            (map Notification
              [''REPS:0'', ''REPS:1'', ''REPS:2'', ''REPS:3'', ''REPS:4'', ''REPS:5'',
               ''REPS:6'', ''REPS:7'', ''REPS:8'', ''REPS:9'', ''REPS:10'', ''REPS:11'',
               ''REPS:12'']))
          = (replicate (nat sets) 0)[0 := 10]"
proof -
  define s0 where "s0 = render (initialSession sets)"
  define cl where "cl = renderClosure 10 s0"
  define s1 where "s1 = deliver sets 10 cl s0 (Notification ''REPS:0'')"
  define s2 where "s2 = deliver sets 10 cl s1 (Notification ''REPS:1'')"
  define s3 where "s3 = deliver sets 10 cl s2 (Notification ''REPS:2'')"
  define s4 where "s4 = deliver sets 10 cl s3 (Notification ''REPS:3'')"
  define s5 where "s5 = deliver sets 10 cl s4 (Notification ''REPS:4'')"
  define s6 where "s6 = deliver sets 10 cl s5 (Notification ''REPS:5'')"
  define s7 where "s7 = deliver sets 10 cl s6 (Notification ''REPS:6'')"
  define s8 where "s8 = deliver sets 10 cl s7 (Notification ''REPS:7'')"
  define s9 where "s9 = deliver sets 10 cl s8 (Notification ''REPS:8'')"
  define s10 where "s10 = deliver sets 10 cl s9 (Notification ''REPS:9'')"
  define s11 where "s11 = deliver sets 10 cl s10 (Notification ''REPS:10'')"
  define s12 where "s12 = deliver sets 10 cl s11 (Notification ''REPS:11'')"
  define s13 where "s13 = deliver sets 10 cl s12 (Notification ''REPS:12'')"
  have p0: "parseRepsNotification ''REPS:0'' = Some 0" by code_simp
  have p1: "parseRepsNotification ''REPS:1'' = Some 1" by code_simp
  have p2: "parseRepsNotification ''REPS:2'' = Some 2" by code_simp
  have p3: "parseRepsNotification ''REPS:3'' = Some 3" by code_simp
  have p4: "parseRepsNotification ''REPS:4'' = Some 4" by code_simp
  have p5: "parseRepsNotification ''REPS:5'' = Some 5" by code_simp
  have p6: "parseRepsNotification ''REPS:6'' = Some 6" by code_simp
  have p7: "parseRepsNotification ''REPS:7'' = Some 7" by code_simp
  have p8: "parseRepsNotification ''REPS:8'' = Some 8" by code_simp
  have p9: "parseRepsNotification ''REPS:9'' = Some 9" by code_simp
  have p10: "parseRepsNotification ''REPS:10'' = Some 10" by code_simp
  have p11: "parseRepsNotification ''REPS:11'' = Some 11" by code_simp
  have p12: "parseRepsNotification ''REPS:12'' = Some 12" by code_simp
  have n: "0 < nat sets" using assms by simp
  have cl1: "cl_currentSetIndex cl = 0"
    by (simp add: cl_def s0_def renderClosure_def render_def initialSession_def)
  have cl2: "\<not> cl_isAllSetsComplete cl"
    using n by (simp add: cl_def s0_def renderClosure_def render_def initialSession_def
        isAllSetsComplete_def list_all_iff)
  have cl3: "cl_currentReps cl + 1 < 10"
    using n by (simp add: cl_def s0_def renderClosure_def render_def initialSession_def currentReps_def)
  have c0: "counting 0 0 s0 \<and> setRepsCompleted s0 = replicate (nat sets) 0"
    using n by (simp add: counting_def s0_def render_def initialSession_def currentReps_def)
  have c1: "counting 0 0 s1 \<and> setRepsCompleted s1 = replicate (nat sets) 0"
    using counting_skip [of 0 0 s0 "''REPS:0''" 0 10 sets cl] c0 p0 by (simp add: s1_def)
  have c2: "counting 1 1 s2 \<and> setRepsCompleted s2 = (replicate (nat sets) 0)[0 := 1]"
    using counting_add [of cl 10 0 0 s1 "''REPS:1''" 1 sets] cl1 cl2 cl3 c1 p1 by (simp add: s2_def)
  have c3: "counting 2 2 s3 \<and> setRepsCompleted s3 = (replicate (nat sets) 0)[0 := 2]"
    using counting_add [of cl 10 1 1 s2 "''REPS:2''" 2 sets] cl1 cl2 cl3 c2 p2 by (simp add: s3_def)
  have c4: "counting 3 3 s4 \<and> setRepsCompleted s4 = (replicate (nat sets) 0)[0 := 3]"
    using counting_add [of cl 10 2 2 s3 "''REPS:3''" 3 sets] cl1 cl2 cl3 c3 p3 by (simp add: s4_def)
  have c5: "counting 4 4 s5 \<and> setRepsCompleted s5 = (replicate (nat sets) 0)[0 := 4]"
    using counting_add [of cl 10 3 3 s4 "''REPS:4''" 4 sets] cl1 cl2 cl3 c4 p4 by (simp add: s5_def)
  have c6: "counting 5 5 s6 \<and> setRepsCompleted s6 = (replicate (nat sets) 0)[0 := 5]"
    using counting_add [of cl 10 4 4 s5 "''REPS:5''" 5 sets] cl1 cl2 cl3 c5 p5 by (simp add: s6_def)
  have c7: "counting 6 6 s7 \<and> setRepsCompleted s7 = (replicate (nat sets) 0)[0 := 6]"
    using counting_add [of cl 10 5 5 s6 "''REPS:6''" 6 sets] cl1 cl2 cl3 c6 p6 by (simp add: s7_def)
  have c8: "counting 7 7 s8 \<and> setRepsCompleted s8 = (replicate (nat sets) 0)[0 := 7]"
    using counting_add [of cl 10 6 6 s7 "''REPS:7''" 7 sets] cl1 cl2 cl3 c7 p7 by (simp add: s8_def)
  have c9: "counting 8 8 s9 \<and> setRepsCompleted s9 = (replicate (nat sets) 0)[0 := 8]"
    using counting_add [of cl 10 7 7 s8 "''REPS:8''" 8 sets] cl1 cl2 cl3 c8 p8 by (simp add: s9_def)
  have c10: "counting 9 9 s10 \<and> setRepsCompleted s10 = (replicate (nat sets) 0)[0 := 9]"
    using counting_add [of cl 10 8 8 s9 "''REPS:9''" 9 sets] cl1 cl2 cl3 c9 p9 by (simp add: s10_def)
  have c11: "counting 10 10 s11 \<and> setRepsCompleted s11 = (replicate (nat sets) 0)[0 := 10]"
    using counting_add [of cl 10 9 9 s10 "''REPS:10''" 10 sets] cl1 cl2 cl3 c10 p10 by (simp add: s11_def)
  have c12: "counting 10 10 s12 \<and> setRepsCompleted s12 = (replicate (nat sets) 0)[0 := 10]"
    using counting_skip [of 10 10 s11 "''REPS:11''" 11 10 sets cl] c11 p11 by (simp add: s12_def)
  have c13: "counting 10 10 s13 \<and> setRepsCompleted s13 = (replicate (nat sets) 0)[0 := 10]"
    using counting_skip [of 10 10 s12 "''REPS:12''" 12 10 sets cl] c12 p12 by (simp add: s13_def)
  have r11: "deliverAll sets 10 cl s0
      (map Notification
        [''REPS:0'', ''REPS:1'', ''REPS:2'', ''REPS:3'', ''REPS:4'', ''REPS:5'',
         ''REPS:6'', ''REPS:7'', ''REPS:8'', ''REPS:9'', ''REPS:10'']) = s11"
    by (simp add: deliverAll_def s1_def s2_def s3_def s4_def s5_def s6_def s7_def
        s8_def s9_def s10_def s11_def)
  have r12: "deliverAll sets 10 cl s0
      (map Notification
        [''REPS:0'', ''REPS:1'', ''REPS:2'', ''REPS:3'', ''REPS:4'', ''REPS:5'',
         ''REPS:6'', ''REPS:7'', ''REPS:8'', ''REPS:9'', ''REPS:10'', ''REPS:11'']) = s12"
    by (simp add: deliverAll_def s1_def s2_def s3_def s4_def s5_def s6_def s7_def
        s8_def s9_def s10_def s11_def s12_def)
  have r13: "deliverAll sets 10 cl s0
      (map Notification
        [''REPS:0'', ''REPS:1'', ''REPS:2'', ''REPS:3'', ''REPS:4'', ''REPS:5'',
         ''REPS:6'', ''REPS:7'', ''REPS:8'', ''REPS:9'', ''REPS:10'', ''REPS:11'',
         ''REPS:12'']) = s13"
    by (simp add: deliverAll_def s1_def s2_def s3_def s4_def s5_def s6_def s7_def
        s8_def s9_def s10_def s11_def s12_def s13_def)
  have cr: "currentReps s11 = 10"
    using c11 n by (simp add: counting_def currentReps_def)
  from r11 r12 r13 c11 c12 c13 cr show ?thesis
    unfolding cl_def s0_def by simp
qed

theorem counter_sequence_to_ten_witness:
  "setRepsCompleted (deliverAll 3 10 (renderClosure 10 (render (initialSession 3)))
            (render (initialSession 3))
            (map Notification
              [''REPS:0'', ''REPS:1'', ''REPS:2'', ''REPS:3'', ''REPS:4'', ''REPS:5'',
               ''REPS:6'', ''REPS:7'', ''REPS:8'', ''REPS:9'', ''REPS:10'', ''REPS:11'',
               ''REPS:12'']))
          = [10, 0, 0]"
proof -
  have h: "(1::int) \<le> 3" by simp
  have e: "(replicate (nat 3) (0::int))[0 := 10] = [10, 0, 0]" by code_simp
  from counter_sequence_to_ten [OF h] e show ?thesis by simp
qed

section \<open>Properties of the transition system\<close>

lemma incrementRep_step:
  "length (setRepsCompleted (incrementRep sets reps cl s)) = length (setRepsCompleted s)
   \<and> drop (Suc (cl_currentSetIndex cl)) (setRepsCompleted (incrementRep sets reps cl s))
       = drop (Suc (cl_currentSetIndex cl)) (setRepsCompleted s)
   \<and> (showRestDrawer (incrementRep sets reps cl s) \<longrightarrow>
         showRestDrawer s \<or> int (cl_currentSetIndex cl) < sets - 1)"
  by (simp add: incrementRep_def Let_def bumpRep_def)

lemma incrementRepLoop_step:
  "length (setRepsCompleted (incrementRepLoop sets reps cl n s)) = length (setRepsCompleted s)
   \<and> drop (Suc (cl_currentSetIndex cl)) (setRepsCompleted (incrementRepLoop sets reps cl n s))
       = drop (Suc (cl_currentSetIndex cl)) (setRepsCompleted s)
   \<and> (showRestDrawer (incrementRepLoop sets reps cl n s) \<longrightarrow>
         showRestDrawer s \<or> int (cl_currentSetIndex cl) < sets - 1)"
proof (induction n arbitrary: s)
  case 0
  then show ?case by simp
next
  case (Suc n)
  from Suc.IH [of "incrementRep sets reps cl s"] incrementRep_step [of sets reps cl s]
  show ?case by auto
qed

lemma mergeSample_step:
  "length (setRepsCompleted (mergeSample sets reps cl v s)) = length (setRepsCompleted s)
   \<and> drop (Suc (cl_currentSetIndex cl)) (setRepsCompleted (mergeSample sets reps cl v s))
       = drop (Suc (cl_currentSetIndex cl)) (setRepsCompleted s)
   \<and> (showRestDrawer (mergeSample sets reps cl v s) \<longrightarrow>
         showRestDrawer s \<or> int (cl_currentSetIndex cl) < sets - 1)
   \<and> currentSetIndex (mergeSample sets reps cl v s) = currentSetIndex s
   \<and> setRestTimes (mergeSample sets reps cl v s) = setRestTimes s
   \<and> setRestTimesRef (mergeSample sets reps cl v s) = setRestTimesRef s"
  using incrementRepLoop_step [of sets reps cl
          "nat (min (v - lastSensorRepRef s) (reps - currentRepsRef s))" "s\<lparr>sensorReps := v\<rparr>"]
        incrementRepLoop_frame_fields [of sets reps cl
          "nat (min (v - lastSensorRepRef s) (reps - currentRepsRef s))" "s\<lparr>sensorReps := v\<rparr>"]
  by (simp add: mergeSample_delta_only mergeSampleDeltaOnly_def Let_def)

lemma handleSample_step:
  "length (setRepsCompleted (handleSample sets reps cl s smp)) = length (setRepsCompleted s)
   \<and> drop (Suc (cl_currentSetIndex cl)) (setRepsCompleted (handleSample sets reps cl s smp))
       = drop (Suc (cl_currentSetIndex cl)) (setRepsCompleted s)
   \<and> (showRestDrawer (handleSample sets reps cl s smp) \<longrightarrow>
         showRestDrawer s \<or> int (cl_currentSetIndex cl) < sets - 1)
   \<and> currentSetIndex (handleSample sets reps cl s smp) = currentSetIndex s
   \<and> setRestTimes (handleSample sets reps cl s smp) = setRestTimes s
   \<and> setRestTimesRef (handleSample sets reps cl s smp) = setRestTimesRef s"
proof (cases smp)
  case (Notification t)
  show ?thesis
    using mergeSample_step [of sets reps cl _ "s\<lparr>bleLastText := Some t, bleNotifyCount := bleNotifyCount s + 1\<rparr>"]
    by (simp add: Notification onNotification_def Let_def split: option.splits)
next
  case (PollRead t)
  show ?thesis
    using mergeSample_step [of sets reps cl _ "s\<lparr>bleLastText := Some t\<rparr>"]
    by (simp add: PollRead onPollRead_def Let_def split: option.splits)
qed

lemma settledD:
  assumes "settled cfg st"
  shows "length (setRepsCompleted (sess st)) = nat (cfg_sets cfg)"
    and "currentSetIndex (sess st) < nat (cfg_sets cfg)"
    and "list_all (\<lambda>r. r = 0) (drop (Suc (currentSetIndex (sess st))) (setRepsCompleted (sess st)))"
    and "showRestDrawer (sess st) \<Longrightarrow> int (currentSetIndex (sess st)) < cfg_sets cfg - 1"
    and "monitor st = Some cl \<Longrightarrow> cl_currentSetIndex cl = currentSetIndex (sess st)
          \<and> \<not> cl_isAllSetsComplete cl \<and> \<not> showRestDrawer (sess st)
          \<and> \<not> isAllSetsComplete (cfg_reps cfg) (sess st)"
    and "userId st = None \<or> userId st = cfg_authUser cfg"
    and "saveEffectDeps st = Some (saveDeps cfg st)"
  using assms unfolding settled_def by (auto split: if_splits)

lemma handleEvent_frame:
  "workouts (handleEvent cfg st ev) = workouts st
   \<and> saveEffectDeps (handleEvent cfg st ev) = saveEffectDeps st
   \<and> (userId (handleEvent cfg st ev) = userId st
       \<or> userId (handleEvent cfg st ev) = cfg_authUser cfg)"
  by (cases ev) (simp_all split: option.splits)

lemma complete_not_resting:
  assumes "settled cfg st" and "1 \<le> cfg_reps cfg"
    and "isAllSetsComplete (cfg_reps cfg) (sess st)"
  shows "\<not> showRestDrawer (sess st)"
proof
  assume r: "showRestDrawer (sess st)"
  let ?xs = "setRepsCompleted (sess st)"
  let ?i = "currentSetIndex (sess st)"
  have l: "length ?xs = nat (cfg_sets cfg)" using assms(1) by (rule settledD)
  have i: "int ?i < cfg_sets cfg - 1" using assms(1) r by (rule settledD)
  have z: "list_all (\<lambda>r. r = 0) (drop (Suc ?i) ?xs)" using assms(1) by (rule settledD)
  have b: "Suc ?i < length ?xs" using l i by simp
  have d: "drop (Suc ?i) ?xs = ?xs ! Suc ?i # drop (Suc (Suc ?i)) ?xs"
    using b by (simp add: Cons_nth_drop_Suc)
  have e: "?xs ! (Suc ?i) = 0" using z unfolding d by simp
  have "\<forall>n<length ?xs. cfg_reps cfg \<le> ?xs ! n"
    using assms(3) by (simp only: isAllSetsComplete_def list_all_length)
  then have "cfg_reps cfg \<le> ?xs ! (Suc ?i)" using b by blast
  with e assms(2) show False by simp
qed

lemma settledI:
  assumes "length (setRepsCompleted (sess st)) = nat (cfg_sets cfg)"
    and "currentSetIndex (sess st) < nat (cfg_sets cfg)"
    and "list_all (\<lambda>r. r = 0) (drop (Suc (currentSetIndex (sess st))) (setRepsCompleted (sess st)))"
    and "showRestDrawer (sess st) \<longrightarrow> int (currentSetIndex (sess st)) < cfg_sets cfg - 1"
    and "\<forall>cl. monitor st = Some cl \<longrightarrow> cl_currentSetIndex cl = currentSetIndex (sess st)
          \<and> \<not> cl_isAllSetsComplete cl \<and> \<not> showRestDrawer (sess st)
          \<and> \<not> isAllSetsComplete (cfg_reps cfg) (sess st)"
    and "userId st = None \<or> userId st = cfg_authUser cfg"
    and "saveEffectDeps st = Some (saveDeps cfg st)"
  shows "settled cfg st"
  using assms unfolding settled_def by (auto split: option.splits)

lemma render_complete: "isAllSetsComplete reps (render s) = isAllSetsComplete reps s"
  by (simp add: isAllSetsComplete_def render_def)

lemma saveDeps_render: "saveDeps cfg (st\<lparr>sess := render (sess st)\<rparr>) = saveDeps cfg st"
  by (simp add: saveDeps_def render_complete) (simp add: render_def)

lemma commit_fields:
  "sess (commit cfg st0) = render (sess st0)
   \<and> userId (commit cfg st0) = userId st0
   \<and> monitor (commit cfg st0)
       = (if showRestDrawer (sess st0) \<or> isAllSetsComplete (cfg_reps cfg) (sess st0)
          then None else monitor st0)"
  by (simp add: commit_def Let_def saveEffect_def render_complete render_fields split: option.splits)

lemma saveDeps_commit: "saveDeps cfg (commit cfg st0) = saveDeps cfg st0"
  using saveDeps_render [of cfg st0] by (simp add: saveDeps_def commit_fields)

lemma commit_deps: "saveEffectDeps (commit cfg st0) = Some (saveDeps cfg st0)"
proof -
  let ?st1 = "st0\<lparr>sess := render (sess st0)\<rparr>"
  have a: "saveDeps cfg (?st1\<lparr>monitor := None\<rparr>) = saveDeps cfg st0"
    using saveDeps_render [of cfg st0] by (simp add: saveDeps_def)
  have b: "saveDeps cfg ?st1 = saveDeps cfg st0" by (rule saveDeps_render)
  show ?thesis
    by (simp add: commit_def Let_def a b)
qed

lemma commit_workouts:
  "workouts (commit cfg st0) =
     (if saveEffectDeps st0 = Some (saveDeps cfg st0) then workouts st0
      else if isAllSetsComplete (cfg_reps cfg) (sess st0)
      then (case userId st0 of None \<Rightarrow> workouts st0
            | Some u \<Rightarrow> workouts st0 @ [finalRecord cfg u st0])
      else workouts st0)"
proof -
  let ?st1 = "st0\<lparr>sess := render (sess st0)\<rparr>"
  have a: "saveDeps cfg (?st1\<lparr>monitor := None\<rparr>) = saveDeps cfg st0"
    using saveDeps_render [of cfg st0] by (simp add: saveDeps_def)
  have b: "saveDeps cfg ?st1 = saveDeps cfg st0" by (rule saveDeps_render)
  show ?thesis
    by (simp add: commit_def Let_def a b saveEffect_def saveWorkout_def finalRecord_def
          render_complete render_fields split: option.splits)
qed

lemma list_all_drop_Suc:
  "list_all P (drop n xs) \<Longrightarrow> list_all P (drop (Suc n) xs)"
proof -
  assume a: "list_all P (drop n xs)"
  have "set (drop (Suc n) xs) \<subseteq> set (drop n xs)"
    by (rule set_drop_subset_set_drop) simp
  with a show ?thesis unfolding list_all_iff by blast
qed

lemma handleEvent_shape:
  assumes "settled cfg st"
  shows "length (setRepsCompleted (sess (handleEvent cfg st ev))) = nat (cfg_sets cfg)
   \<and> currentSetIndex (sess (handleEvent cfg st ev)) < nat (cfg_sets cfg)
   \<and> list_all (\<lambda>r. r = 0) (drop (Suc (currentSetIndex (sess (handleEvent cfg st ev))))
         (setRepsCompleted (sess (handleEvent cfg st ev))))
   \<and> (showRestDrawer (sess (handleEvent cfg st ev)) \<longrightarrow>
         int (currentSetIndex (sess (handleEvent cfg st ev))) < cfg_sets cfg - 1)
   \<and> (\<forall>cl. monitor (handleEvent cfg st ev) = Some cl \<longrightarrow>
         cl_currentSetIndex cl = currentSetIndex (sess (handleEvent cfg st ev))
         \<and> \<not> cl_isAllSetsComplete cl)
   \<and> (userId (handleEvent cfg st ev) = None \<or> userId (handleEvent cfg st ev) = cfg_authUser cfg)"
proof -
  let ?s = "sess st"
  note d = settledD [OF assms]
  have r: "showRestDrawer ?s \<longrightarrow> int (currentSetIndex ?s) < cfg_sets cfg - 1"
    using d(4) by blast
  have m: "\<forall>cl. monitor st = Some cl \<longrightarrow> cl_currentSetIndex cl = currentSetIndex ?s
          \<and> \<not> cl_isAllSetsComplete cl \<and> \<not> showRestDrawer ?s"
    using d(5) by blast
  show ?thesis
  proof (cases ev)
    case Tap
    let ?cl = "renderClosure (cfg_reps cfg) ?s"
    have i: "cl_currentSetIndex ?cl = currentSetIndex ?s" by (simp add: renderClosure_def)
    from incrementRep_step [of "cfg_sets cfg" "cfg_reps cfg" ?cl ?s]
         incrementRep_frame_fields [of "cfg_sets cfg" "cfg_reps cfg" ?cl ?s] i d(1,2,3,6) r m
    show ?thesis by (auto simp add: Tap)
  next
    case (Sensor smp)
    show ?thesis
    proof (cases "monitor st")
      case None
      with d(1,2,3,6) r m show ?thesis by (simp add: Sensor)
    next
      case (Some cl)
      with m have i: "cl_currentSetIndex cl = currentSetIndex ?s" by blast
      from handleSample_step [of "cfg_sets cfg" "cfg_reps cfg" cl ?s smp] i d(1,2,3,6) r m Some
      show ?thesis by (auto simp add: Sensor)
    qed
  next
    case Continue
    show ?thesis
    proof (cases "showRestDrawer ?s")
      case True
      with r have i: "int (currentSetIndex ?s) < cfg_sets cfg - 1" by blast
      from True m have mn: "monitor st = None" by (cases "monitor st") auto
      have z: "list_all (\<lambda>r. r = 0) (drop (Suc (Suc (currentSetIndex ?s))) (setRepsCompleted ?s))"
        using d(3) by (rule list_all_drop_Suc)
      from True i mn z d(1,6) show ?thesis
        by (simp add: Continue continueToNextSet_def)
    next
      case False
      with d(1,2,3,6) r m show ?thesis by (simp add: Continue)
    qed
  next
    case (Tick e)
    with d(1,2,3,6) r m show ?thesis by simp
  next
    case AuthResolved
    with d(1,2,3,6) r m show ?thesis by (auto split: option.splits)
  next
    case Attach
    with d(1,2,3,6) r m show ?thesis by (simp add: renderClosure_def)
  next
    case Rerender
    with d(1,2,3,6) r m show ?thesis by simp
  qed
qed

lemma commit_settled:
  assumes "length (setRepsCompleted (sess st0)) = nat (cfg_sets cfg)"
    and "currentSetIndex (sess st0) < nat (cfg_sets cfg)"
    and "list_all (\<lambda>r. r = 0) (drop (Suc (currentSetIndex (sess st0))) (setRepsCompleted (sess st0)))"
    and "showRestDrawer (sess st0) \<longrightarrow> int (currentSetIndex (sess st0)) < cfg_sets cfg - 1"
    and "\<forall>cl. monitor st0 = Some cl \<longrightarrow>
           cl_currentSetIndex cl = currentSetIndex (sess st0) \<and> \<not> cl_isAllSetsComplete cl"
    and "userId st0 = None \<or> userId st0 = cfg_authUser cfg"
  shows "settled cfg (commit cfg st0)"
proof (rule settledI)
  note f = commit_fields [of cfg st0]
  show "length (setRepsCompleted (sess (commit cfg st0))) = nat (cfg_sets cfg)"
    using assms(1) f by (simp add: render_fields)
  show "currentSetIndex (sess (commit cfg st0)) < nat (cfg_sets cfg)"
    using assms(2) f by (simp add: render_fields)
  show "list_all (\<lambda>r. r = 0) (drop (Suc (currentSetIndex (sess (commit cfg st0))))
          (setRepsCompleted (sess (commit cfg st0))))"
    using assms(3) f by (simp add: render_fields)
  show "showRestDrawer (sess (commit cfg st0)) \<longrightarrow>
          int (currentSetIndex (sess (commit cfg st0))) < cfg_sets cfg - 1"
    using assms(4) f by (simp add: render_fields)
  show "\<forall>cl. monitor (commit cfg st0) = Some cl \<longrightarrow>
          cl_currentSetIndex cl = currentSetIndex (sess (commit cfg st0))
          \<and> \<not> cl_isAllSetsComplete cl \<and> \<not> showRestDrawer (sess (commit cfg st0))
          \<and> \<not> isAllSetsComplete (cfg_reps cfg) (sess (commit cfg st0))"
    using assms(5) f by (simp add: render_fields render_complete)
  show "userId (commit cfg st0) = None \<or> userId (commit cfg st0) = cfg_authUser cfg"
    using assms(6) f by simp
  show "saveEffectDeps (commit cfg st0) = Some (saveDeps cfg (commit cfg st0))"
    by (simp add: commit_deps saveDeps_commit)
qed

lemma step_settled: "settled cfg st \<Longrightarrow> settled cfg (step cfg st ev)"
  unfolding step_def using handleEvent_shape [of cfg st ev]
  by (intro commit_settled) blast+

lemma mount_settled:
  assumes "1 \<le> cfg_sets cfg"
  shows "settled cfg (mount cfg stored)"
  unfolding mount_def using assms
  by (intro commit_settled) (simp_all add: initialSession_def list_all_iff)

lemma handleEvent_complete:
  assumes "settled cfg st" and "1 \<le> cfg_reps cfg"
    and "isAllSetsComplete (cfg_reps cfg) (sess st)"
  shows "sess (handleEvent cfg st ev) = sess st"
proof -
  have r: "\<not> showRestDrawer (sess st)" using assms by (rule complete_not_resting)
  have m: "monitor st = None"
  proof (cases "monitor st")
    case None
    then show ?thesis .
  next
    case (Some cl)
    from settledD(5) [OF assms(1) Some] assms(3) show ?thesis by blast
  qed
  show ?thesis
    using r m assms(3)
    by (cases ev) (simp_all add: incrementRep_complete renderClosure_def split: option.splits)
qed

lemma finalRecord_cong:
  "setRepsCompleted (sess a) = setRepsCompleted (sess b) \<Longrightarrow>
   setRestTimes (sess a) = setRestTimes (sess b) \<Longrightarrow> finalRecord cfg u a = finalRecord cfg u b"
  by (simp add: finalRecord_def)

lemma step_saved:
  assumes s: "settled cfg st" and r: "1 \<le> cfg_reps cfg"
    and w: "workouts st = stored @
       (if isAllSetsComplete (cfg_reps cfg) (sess st)
        then (case userId st of None \<Rightarrow> [] | Some u \<Rightarrow> [finalRecord cfg u st]) else [])"
  shows "workouts (step cfg st ev) = stored @
       (if isAllSetsComplete (cfg_reps cfg) (sess (step cfg st ev))
        then (case userId (step cfg st ev) of None \<Rightarrow> []
              | Some u \<Rightarrow> [finalRecord cfg u (step cfg st ev)]) else [])"
proof -
  let ?st0 = "handleEvent cfg st ev"
  let ?st' = "step cfg st ev"
  let ?c = "\<lambda>x. isAllSetsComplete (cfg_reps cfg) (sess x)"
  note fr = handleEvent_frame [of cfg st ev]
  have f: "sess ?st' = render (sess ?st0)" "userId ?st' = userId ?st0"
    by (simp_all add: step_def commit_fields)
  have c': "?c ?st' = ?c ?st0" by (simp add: f render_complete)
  have rec: "\<And>u. finalRecord cfg u ?st' = finalRecord cfg u ?st0"
    by (rule finalRecord_cong) (simp_all add: f render_fields)
  have wk: "workouts ?st' =
     (if saveEffectDeps ?st0 = Some (saveDeps cfg ?st0) then workouts ?st0
      else if ?c ?st0
      then (case userId ?st0 of None \<Rightarrow> workouts ?st0
            | Some u \<Rightarrow> workouts ?st0 @ [finalRecord cfg u ?st0])
      else workouts ?st0)"
    unfolding step_def by (rule commit_workouts)
  have dp: "saveEffectDeps ?st0 = Some (saveDeps cfg st)"
    using fr settledD(7) [OF s] by simp
  have w0: "workouts ?st0 = workouts st" using fr by simp
  show ?thesis
  proof (cases "?c st")
    case True
    have same: "sess ?st0 = sess st" using s r True by (rule handleEvent_complete)
    have c0: "?c ?st0" using True same by simp
    show ?thesis
    proof (cases "userId ?st0 = userId st")
      case True
      then have "saveDeps cfg ?st0 = saveDeps cfg st" using same by (simp add: saveDeps_def)
      with dp wk w0 have "workouts ?st' = workouts st" by simp
      with w c' c0 \<open>?c st\<close> True f rec same show ?thesis
        by (simp add: finalRecord_def split: option.splits)
    next
      case False
      with fr have a: "userId ?st0 = cfg_authUser cfg" by blast
      with False settledD(6) [OF s] have n: "userId st = None" by auto
      with False obtain u where u: "userId ?st0 = Some u" by (cases "userId ?st0") auto
      have "saveDeps cfg ?st0 \<noteq> saveDeps cfg st" using False by (simp add: saveDeps_def)
      with dp wk w0 c0 u have "workouts ?st' = workouts st @ [finalRecord cfg u ?st0]" by simp
      with w n \<open>?c st\<close> c' c0 u f rec show ?thesis by simp
    qed
  next
    case False
    then have ws: "workouts st = stored" using w by simp
    show ?thesis
    proof (cases "?c ?st0")
      case True
      have "saveDeps cfg ?st0 \<noteq> saveDeps cfg st" using True False by (auto simp add: saveDeps_def)
      with dp wk w0 True have "workouts ?st' =
         (case userId ?st0 of None \<Rightarrow> workouts st | Some u \<Rightarrow> workouts st @ [finalRecord cfg u ?st0])"
        by (simp split: option.splits)
      with ws c' True f rec show ?thesis by (simp split: option.splits)
    next
      case False
      with wk w0 have "workouts ?st' = workouts st" by simp
      with ws c' False show ?thesis by simp
    qed
  qed
qed

lemma mount_saved:
  assumes "1 \<le> cfg_sets cfg" and "1 \<le> cfg_reps cfg"
  shows "workouts (mount cfg stored) = stored
     \<and> \<not> isAllSetsComplete (cfg_reps cfg) (sess (mount cfg stored))"
proof -
  have n: "0 < nat (cfg_sets cfg)" using assms(1) by simp
  have c: "\<not> isAllSetsComplete (cfg_reps cfg) (initialSession (cfg_sets cfg))"
    using n assms(2) by (simp add: isAllSetsComplete_def initialSession_def list_all_iff)
  show ?thesis
    unfolding mount_def using c
    by (simp add: commit_workouts commit_fields render_complete)
qed

lemma run_snoc: "run cfg stored (evs @ [ev]) = step cfg (run cfg stored evs) ev"
  by (simp add: run_def)

lemma run_invariant:
  assumes "1 \<le> cfg_sets cfg" and "1 \<le> cfg_reps cfg"
  shows "settled cfg (run cfg stored evs)
     \<and> workouts (run cfg stored evs) = stored @
       (if isAllSetsComplete (cfg_reps cfg) (sess (run cfg stored evs))
        then (case userId (run cfg stored evs) of None \<Rightarrow> []
              | Some u \<Rightarrow> [finalRecord cfg u (run cfg stored evs)]) else [])"
proof (induction evs rule: rev_induct)
  case Nil
  from mount_settled [OF assms(1), of stored] mount_saved [OF assms, of stored]
  show ?case by (simp add: run_def)
next
  case (snoc ev evs)
  from snoc.IH have s: "settled cfg (run cfg stored evs)" by blast
  from snoc.IH have w: "workouts (run cfg stored evs) = stored @
       (if isAllSetsComplete (cfg_reps cfg) (sess (run cfg stored evs))
        then (case userId (run cfg stored evs) of None \<Rightarrow> []
              | Some u \<Rightarrow> [finalRecord cfg u (run cfg stored evs)]) else [])" by blast
  from step_settled [OF s, of ev] step_saved [OF s assms(2) w, of ev]
  show ?case unfolding run_snoc by blast
qed

lemma step_complete_stable:
  assumes s: "settled cfg st" and r: "1 \<le> cfg_reps cfg"
    and c: "isAllSetsComplete (cfg_reps cfg) (sess st)"
  shows "isAllSetsComplete (cfg_reps cfg) (sess (step cfg st ev))
     \<and> setRepsCompleted (sess (step cfg st ev)) = setRepsCompleted (sess st)
     \<and> setRestTimes (sess (step cfg st ev)) = setRestTimes (sess st)
     \<and> (userId st = Some u \<longrightarrow> userId (step cfg st ev) = Some u)"
proof -
  have same: "sess (handleEvent cfg st ev) = sess st" using s r c by (rule handleEvent_complete)
  have f: "sess (step cfg st ev) = render (sess st)" "userId (step cfg st ev) = userId (handleEvent cfg st ev)"
    by (simp_all add: step_def commit_fields same)
  have u: "userId st = Some u \<longrightarrow> userId (handleEvent cfg st ev) = Some u"
    using handleEvent_frame [of cfg st ev] settledD(6) [OF s] by auto
  from f u c show ?thesis by (simp add: render_complete render_fields)
qed

lemma run_append_snoc:
  "run cfg stored (evs @ later @ [ev]) = step cfg (run cfg stored (evs @ later)) ev"
  using run_snoc [of cfg stored "evs @ later" ev] by simp

lemma run_complete_stable:
  assumes "1 \<le> cfg_sets cfg" and "1 \<le> cfg_reps cfg"
    and "isAllSetsComplete (cfg_reps cfg) (sess (run cfg stored evs))"
  shows "isAllSetsComplete (cfg_reps cfg) (sess (run cfg stored (evs @ later)))
     \<and> setRepsCompleted (sess (run cfg stored (evs @ later))) = setRepsCompleted (sess (run cfg stored evs))
     \<and> setRestTimes (sess (run cfg stored (evs @ later))) = setRestTimes (sess (run cfg stored evs))
     \<and> (userId (run cfg stored evs) = Some u \<longrightarrow> userId (run cfg stored (evs @ later)) = Some u)"
proof (induction later rule: rev_induct)
  case Nil
  from assms(3) show ?case by simp
next
  case (snoc ev later)
  have s: "settled cfg (run cfg stored (evs @ later))"
    using run_invariant [OF assms(1,2), of stored "evs @ later"] by blast
  from snoc.IH have c: "isAllSetsComplete (cfg_reps cfg) (sess (run cfg stored (evs @ later)))" by blast
  from step_complete_stable [OF s assms(2) c, of ev u] snoc.IH
  show ?case unfolding run_append_snoc by auto
qed

section \<open>Saving the finished session\<close>

text \<open>
  C2, as the claim states it, fails: in a session with no signed-in user (or no backend
  client) every entry of \<open>setRepsCompleted\<close> reaches \<open>reps\<close> and \<open>saveWorkout\<close> is
  not invoked at all, since the save effect asks for \<open>isAllSetsComplete && userId\<close>.
\<close>

theorem save_not_invoked_without_user:
  "isAllSetsComplete 3
     (sess (run \<lparr>cfg_sets = 1, cfg_reps = 3, cfg_machineName = ''Leg Press'', cfg_authUser = None\<rparr>
        [] [Tap, Tap, Tap, AuthResolved, Rerender]))
   \<and> workouts (run \<lparr>cfg_sets = 1, cfg_reps = 3, cfg_machineName = ''Leg Press'', cfg_authUser = None\<rparr>
        [] [Tap, Tap, Tap, AuthResolved, Rerender]) = []"
  by code_simp

text \<open>
  C2, amended: for at least one set and one rep per set, after every sequence of events
  (taps, samples, rest-timer ticks, continues, renders with nothing changed, the user id
  arriving, subscriptions being made) the stored workouts are the ones stored before the
  session, followed by exactly one record of this session when every entry of
  \<open>setRepsCompleted\<close> has reached \<open>reps\<close> and a user id has been obtained, and by nothing
  otherwise; once the session is complete and the user id is there, no further event or
  render adds a record or changes the one written; without a user id nothing is ever
  written.
\<close>

theorem save_exactly_once:
  assumes "1 \<le> cfg_sets cfg" and "1 \<le> cfg_reps cfg"
  shows "workouts (run cfg stored evs) = stored @
       (if isAllSetsComplete (cfg_reps cfg) (sess (run cfg stored evs))
        then (case userId (run cfg stored evs) of None \<Rightarrow> []
              | Some u \<Rightarrow> [finalRecord cfg u (run cfg stored evs)]) else [])
     \<and> (isAllSetsComplete (cfg_reps cfg) (sess (run cfg stored evs))
          \<and> userId (run cfg stored evs) = Some u \<longrightarrow>
        workouts (run cfg stored (evs @ later))
          = stored @ [finalRecord cfg u (run cfg stored evs)])
     \<and> (cfg_authUser cfg = None \<longrightarrow> workouts (run cfg stored evs) = stored)"
proof -
  let ?st = "run cfg stored evs"
  let ?st' = "run cfg stored (evs @ later)"
  note i = run_invariant [OF assms, of stored evs]
  note i' = run_invariant [OF assms, of stored "evs @ later"]
  have a: "workouts ?st = stored @
       (if isAllSetsComplete (cfg_reps cfg) (sess ?st)
        then (case userId ?st of None \<Rightarrow> [] | Some u \<Rightarrow> [finalRecord cfg u ?st]) else [])"
    using i by blast
  have b: "isAllSetsComplete (cfg_reps cfg) (sess ?st) \<and> userId ?st = Some u \<longrightarrow>
        workouts ?st' = stored @ [finalRecord cfg u ?st]"
  proof
    assume h: "isAllSetsComplete (cfg_reps cfg) (sess ?st) \<and> userId ?st = Some u"
    then have c: "isAllSetsComplete (cfg_reps cfg) (sess ?st)" by blast
    note st = run_complete_stable [OF assms c, of later u]
    have r: "finalRecord cfg u ?st' = finalRecord cfg u ?st"
      using st by (intro finalRecord_cong) simp_all
    from i' st h r show "workouts ?st' = stored @ [finalRecord cfg u ?st]" by simp
  qed
  have c: "cfg_authUser cfg = None \<longrightarrow> workouts ?st = stored"
  proof
    assume n: "cfg_authUser cfg = None"
    from i have "settled cfg ?st" by blast
    from settledD(6) [OF this] n have "userId ?st = None" by auto
    with a show "workouts ?st = stored" by simp
  qed
  from a b c show ?thesis by blast
qed

theorem save_exactly_once_witness:
  "workouts (run \<lparr>cfg_sets = 1, cfg_reps = 3, cfg_machineName = ''Leg Press'', cfg_authUser = Some ''user-1''\<rparr>
        [] ([AuthResolved, Tap, Tap, Tap] @ [Rerender, Tap, Rerender, AuthResolved, Rerender]))
     = [\<lparr>w_userId = ''user-1'', w_machineName = ''Leg Press'', w_sets = 1, w_reps = 3,
         w_setRepsCompleted = [3], w_setRestTimes = [0]\<rparr>]"
proof -
  let ?cfg = "\<lparr>cfg_sets = 1, cfg_reps = 3, cfg_machineName = ''Leg Press'', cfg_authUser = Some ''user-1''\<rparr>"
  let ?evs = "[AuthResolved, Tap, Tap, Tap]"
  have h: "1 \<le> cfg_sets ?cfg" "1 \<le> cfg_reps ?cfg" by simp_all
  have c: "isAllSetsComplete (cfg_reps ?cfg) (sess (run ?cfg [] ?evs)) \<and> userId (run ?cfg [] ?evs) = Some ''user-1''"
    by code_simp
  have r: "finalRecord ?cfg ''user-1'' (run ?cfg [] ?evs) =
      \<lparr>w_userId = ''user-1'', w_machineName = ''Leg Press'', w_sets = 1, w_reps = 3,
         w_setRepsCompleted = [3], w_setRestTimes = [0]\<rparr>"
    by code_simp
  from save_exactly_once [OF h, of "[]" ?evs "''user-1''" "[Rerender, Tap, Rerender, AuthResolved, Rerender]"] c
  have "workouts (run ?cfg [] (?evs @ [Rerender, Tap, Rerender, AuthResolved, Rerender]))
      = [] @ [finalRecord ?cfg ''user-1'' (run ?cfg [] ?evs)]" by blast
  with r show ?thesis by simp
qed

section \<open>Completing a set\<close>

text \<open>
  The button does what the claim says: the tap that completes a set other than the last
  opens the rest drawer and leaves the baseline at 0; on the last set no call of
  \<open>incrementRep\<close> opens it.
\<close>

lemma tap_completing_set_rests:
  assumes "currentSetIndex s < length (setRepsCompleted s)"
    and "currentReps s + 1 = reps" and "int (currentSetIndex s) < sets - 1"
  shows "setRepsCompleted (tap sets reps s) ! currentSetIndex s = reps
     \<and> showRestDrawer (tap sets reps s) \<and> showRestDrawerRef (tap sets reps s)
     \<and> lastSensorRepRef (tap sets reps s) = 0"
proof -
  have c: "currentReps s = setRepsCompleted s ! currentSetIndex s"
    using assms(1) by (simp add: currentReps_def)
  have "\<not> reps \<le> setRepsCompleted s ! currentSetIndex s" using assms(2) c by simp
  then have nc: "\<not> isAllSetsComplete reps s"
    using assms(1) unfolding isAllSetsComplete_def list_all_length by blast
  then show ?thesis using assms c
    by (simp add: tap_def render_def incrementRep_def renderClosure_def Let_def bumpRep_def)
qed

lemma incrementRep_last_set_no_rest:
  "\<not> int (cl_currentSetIndex cl) < sets - 1 \<Longrightarrow>
   showRestDrawer (incrementRep sets reps cl s) = showRestDrawer s"
  by (simp add: incrementRep_def Let_def)

text \<open>
  C3 on the code: a fresh session of 2 sets of 10 reps whose subscription was made at
  mount receives the single notification \<open>REPS:10\<close>. The loop adds the ten reps, so set
  0 is complete and is not the last set; but each call of \<open>incrementRep\<close> tests the
  \<open>currentReps\<close> it captured (0), so the rest drawer is not shown, and the baseline is
  left at 10, not 0. The session is not in the rest period and is not complete.
\<close>

theorem bulk_delta_skips_rest:
  "setRepsCompleted (deliver 2 10 (renderClosure 10 (render (initialSession 2)))
      (render (initialSession 2)) (Notification ''REPS:10'')) = [10, 0]
   \<and> currentSetIndex (deliver 2 10 (renderClosure 10 (render (initialSession 2)))
      (render (initialSession 2)) (Notification ''REPS:10'')) = 0
   \<and> showRestDrawer (deliver 2 10 (renderClosure 10 (render (initialSession 2)))
      (render (initialSession 2)) (Notification ''REPS:10'')) = False
   \<and> lastSensorRepRef (deliver 2 10 (renderClosure 10 (render (initialSession 2)))
      (render (initialSession 2)) (Notification ''REPS:10'')) = 10
   \<and> isAllSetsComplete 10 (deliver 2 10 (renderClosure 10 (render (initialSession 2)))
      (render (initialSession 2)) (Notification ''REPS:10'')) = False"
  by code_simp

text \<open>
  Unit deltas do not open it either while one subscription lasts, for any \<open>reps > 1\<close>:
  here 2 sets of 3 reps, the subscription made at mount.
\<close>

lemma unit_deltas_from_mount_skip_rest:
  "setRepsCompleted (deliverAll 2 3 (renderClosure 3 (render (initialSession 2)))
      (render (initialSession 2))
      [Notification ''REPS:1'', Notification ''REPS:2'', Notification ''REPS:3'']) = [3, 0]
   \<and> showRestDrawer (deliverAll 2 3 (renderClosure 3 (render (initialSession 2)))
      (render (initialSession 2))
      [Notification ''REPS:1'', Notification ''REPS:2'', Notification ''REPS:3'']) = False"
  by code_simp

section \<open>Properties of the handoff store\<close>

text \<open>
  C6: after a handoff is published, consuming returns its two handles and leaves the store
  empty, so a second consume returns nothing; indeed the second of any two consecutive
  consumes returns nothing; consuming from the empty or a cleared store returns nothing
  and leaves it empty; and the store is one slot: a second publish replaces the first,
  and the one consume that follows returns the handles of the second.
\<close>

theorem handoff_read_and_clear:
  "consumePreConnected (setPreConnected d m mach sname smac st) = (Some (d, m), initialState)
   \<and> fst (consumePreConnected (snd (consumePreConnected (setPreConnected d m mach sname smac st)))) = None
   \<and> fst (consumePreConnected (snd (consumePreConnected st))) = None
   \<and> consumePreConnected initialState = (None, initialState)
   \<and> consumePreConnected (clearPreConnected st) = (None, initialState)
   \<and> setPreConnected d2 m2 mach2 sname2 smac2 (setPreConnected d m mach sname smac st)
       = setPreConnected d2 m2 mach2 sname2 smac2 st
   \<and> consumePreConnected (setPreConnected d2 m2 mach2 sname2 smac2 (setPreConnected d m mach sname smac st))
       = (Some (d2, m2), initialState)"
  by (simp add: consumePreConnected_def setPreConnected_def clearPreConnected_def initialState_def
        split: option.splits)

end
